theory Spec2Isabelle
  imports Complex_Main
begin

section \<open>Move tokens and the planners of RubiksCube.tsx\<close>

text \<open>
  A move token is a JavaScript string such as R, U2 or F followed by an apostrophe.
  Counts and indices are integers, durations and coordinates are exact reals.
\<close>

type_synonym move = string

definition prime_char :: char where
  "prime_char = CHR 0x27"

definition double_char :: char where
  "double_char = CHR ''2''"

text \<open>\<open>invertMove\<close>: \<open>move.replace\<close> with a string pattern removes the first occurrence only.\<close>

definition invertMove :: "move \<Rightarrow> move" where
  "invertMove move =
     (if prime_char \<in> set move then remove1 prime_char move
      else if double_char \<in> set move then move
      else move @ [prime_char])"

text \<open>
  Writing \<open>a[i] = v\<close> on a JavaScript array: a negative index sets a property and leaves
  the elements alone, an index at or beyond the length extends the array. The only
  out-of-range write of the source is at index 0 of an empty array, so the padding
  (holes in JavaScript) never appears.
\<close>

definition array_set :: "int list \<Rightarrow> int \<Rightarrow> int \<Rightarrow> int list" where
  "array_set xs i v =
     (if i < 0 then xs
      else if nat i < length xs then xs[nat i := v]
      else xs @ replicate (nat i - length xs) 0 @ [v])"

text \<open>\<open>Array.prototype.slice(start, end)\<close>, negative arguments counting from the end.\<close>

definition js_slice :: "'a list \<Rightarrow> int \<Rightarrow> int \<Rightarrow> 'a list" where
  "js_slice xs start fin =
     (let n = int (length xs);
          k = (if start < 0 then max (n + start) 0 else min start n);
          e = (if fin < 0 then max (n + fin) 0 else min fin n)
      in take (nat e - nat k) (drop (nat k) xs))"

text \<open>\<open>a[i] || 0\<close>: an index out of range reads \<open>undefined\<close>, which is falsy.\<close>

definition nth_or_zero :: "int list \<Rightarrow> nat \<Rightarrow> int" where
  "nth_or_zero xs i = (if i < length xs then xs ! i else 0)"

text \<open>
  The interpolation of \<open>moveCheckpoints\<close> is the one place where the source computes with
  fractions. Its division and its product are IEEE double operations: the exact result rounded
  to the nearest number with a 53-bit significand, ties to the even one. \<open>double_of\<close> is
  that rounding. The exponent range is not represented: array lengths are below \<open>2 ^ 32\<close>,
  so the quotients and products lie between \<open>2 ^ -32\<close> and \<open>2 ^ 64\<close>, far from overflow and
  underflow. \<open>Math.round\<close> of a double is exact: \<^const>\<open>round\<close>, ties upwards.
\<close>

definition round_half_even :: "real \<Rightarrow> int" where
  "round_half_even t =
     (let f = \<lfloor>t\<rfloor>;
          d = t - of_int f
      in if d < 1 / 2 then f
         else if d > 1 / 2 then f + 1
         else if even f then f else f + 1)"

definition double_of :: "real \<Rightarrow> real" where
  "double_of x =
     (if x = 0 then 0
      else
        let e = \<lfloor>log 2 \<bar>x\<bar>\<rfloor>;
            ulp = 2 powr (of_int e - 52)
        in of_int (round_half_even (x / ulp)) * ulp)"

text \<open>
  \<open>moveCheckpoints\<close> (a \<open>useMemo\<close> over \<open>solutionMoves\<close> and \<open>experiences.length\<close>).
\<close>

definition moveCheckpoints :: "move list \<Rightarrow> nat \<Rightarrow> int list" where
  "moveCheckpoints solutionMoves numExperiences =
     (if length solutionMoves = 0 then []
      else
        let totalMoves = int (length solutionMoves);
            checkpoints0 = replicate numExperiences (0::int);
            checkpoints1 = array_set checkpoints0 0 0;
            checkpoints2 = array_set checkpoints1 (int numExperiences - 1) totalMoves;
            preWipMoves = max 0 (totalMoves - 3);
            checkpoints3 =
              (if numExperiences > 1
               then array_set checkpoints2 (int numExperiences - 2) preWipMoves
               else checkpoints2);
            numIntermediateSteps = int numExperiences - 2
        in if numIntermediateSteps > 1
           then
             let movesPerInterval =
                   double_of (real_of_int preWipMoves / real_of_int numIntermediateSteps)
             in foldl (\<lambda>cp i. array_set cp (int i) (round (double_of (real i * movesPerInterval))))
                  checkpoints3 [1 ..< numExperiences - 2]
           else checkpoints3)"

definition getMovesToReachStep :: "move list \<Rightarrow> nat \<Rightarrow> nat \<Rightarrow> move list" where
  "getMovesToReachStep solutionMoves numExperiences targetStep =
     (let cps = moveCheckpoints solutionMoves numExperiences
      in if length solutionMoves = 0 \<or> targetStep \<ge> length cps then []
         else js_slice solutionMoves 0 (cps ! targetStep))"

text \<open>\<open>getMovesForTransition\<close> returns the move list and the duration in seconds.\<close>

definition getMovesForTransition :: "move list \<Rightarrow> nat \<Rightarrow> nat \<Rightarrow> nat \<Rightarrow> move list \<times> real" where
  "getMovesForTransition solutionMoves numExperiences fromStep toStep =
     (if length solutionMoves = 0 then ([], 3 / 10)
      else if int fromStep = int numExperiences - 1 \<and> toStep = 0
      then (map invertMove (rev solutionMoves), 2 / 100)
      else
        let cps = moveCheckpoints solutionMoves numExperiences;
            fromMovesCount = nth_or_zero cps fromStep;
            toMovesCount = nth_or_zero cps toStep
        in if toStep > fromStep
           then (if int toStep = int numExperiences - 1
                 then (js_slice solutionMoves fromMovesCount toMovesCount, 25 / 100)
                 else (js_slice solutionMoves fromMovesCount toMovesCount, 25 / 100))
           else if toStep < fromStep
           then (map invertMove (rev (js_slice solutionMoves toMovesCount fromMovesCount)), 25 / 100)
           else ([], 3 / 10))"

text \<open>
  The product \<open>i * movesPerInterval\<close> of the checkpoint loop and the entry
  \<open>Math.round(i * movesPerInterval)\<close>.
\<close>

definition interp_value :: "nat \<Rightarrow> int \<Rightarrow> nat \<Rightarrow> real" where
  "interp_value n p i = double_of (real i * double_of (real_of_int p / real_of_int (int n - 2)))"

definition interp :: "nat \<Rightarrow> int \<Rightarrow> nat \<Rightarrow> int" where
  "interp n p i = round (interp_value n p i)"


section \<open>The cube: logical model, pieces and slice rotation\<close>

text \<open>
  The component keeps two cubes. The logical cube is an object of the cubejs package, which is
  a dependency and not part of the repository: it is modelled by the sequence of tokens passed
  to its \<open>move\<close> method since \<open>new Cube()\<close>, of which every cubejs state is a function. The
  visual cube is the list of the 27 piece groups in \<open>cubieRefs\<close>, each with a position and
  an Euler rotation. The model describes the mounted component: \<open>groupRef.current\<close> and all
  27 piece references are present. The transform of the whole group and the colours of the
  faces are not part of the model.
\<close>

datatype axis = X | Y | Z

type_synonym vec3 = "real \<times> real \<times> real"

record cubie =
  position :: vec3
  rotation :: vec3

record cube =
  logicalCube :: "move list"
  cubies :: "cubie list"

definition coord :: "axis \<Rightarrow> vec3 \<Rightarrow> real" where
  "coord a v = (case v of (x, y, z) \<Rightarrow> (case a of X \<Rightarrow> x | Y \<Rightarrow> y | Z \<Rightarrow> z))"

text \<open>
  \<open>pivot.attach\<close>, the rotation of the pivot and \<open>groupRef.current.attach\<close> are three.js:
  together they turn a selected piece about the axis through the centre of the group. The
  position after the turn is the rotated point. The Euler angles that three.js decomposes
  the turned orientation into are a parameter \<open>euler\<close> of the model.
\<close>

type_synonym euler_of = "axis \<Rightarrow> real \<Rightarrow> cubie \<Rightarrow> vec3"

definition rotate_point :: "axis \<Rightarrow> real \<Rightarrow> vec3 \<Rightarrow> vec3" where
  "rotate_point a angle v =
     (case v of (x, y, z) \<Rightarrow>
        (case a of
           X \<Rightarrow> (x, y * cos angle - z * sin angle, y * sin angle + z * cos angle)
         | Y \<Rightarrow> (x * cos angle + z * sin angle, y, z * cos angle - x * sin angle)
         | Z \<Rightarrow> (x * cos angle - y * sin angle, x * sin angle + y * cos angle, z)))"

definition attach_turned :: "euler_of \<Rightarrow> axis \<Rightarrow> real \<Rightarrow> cubie \<Rightarrow> cubie" where
  "attach_turned euler a angle c =
     c\<lparr>position := rotate_point a angle (position c), rotation := euler a angle c\<rparr>"

text \<open>The selection test \<open>Math.abs(pos - index) < 0.1\<close> of \<open>rotateSlice\<close>.\<close>

definition selected :: "axis \<Rightarrow> real \<Rightarrow> cubie \<Rightarrow> bool" where
  "selected a index c = (\<bar>coord a (position c) - index\<bar> < 1 / 10)"

text \<open>The six rounding assignments that follow each re-attachment.\<close>

definition snap_angle :: "real \<Rightarrow> real" where
  "snap_angle r = of_int (round (r / (pi / 2))) * (pi / 2)"

definition snap_position :: "vec3 \<Rightarrow> vec3" where
  "snap_position v = (case v of (x, y, z) \<Rightarrow> (of_int (round x), of_int (round y), of_int (round z)))"

definition snap_rotation :: "vec3 \<Rightarrow> vec3" where
  "snap_rotation v = (case v of (rx, ry, rz) \<Rightarrow> (snap_angle rx, snap_angle ry, snap_angle rz))"

definition snap :: "cubie \<Rightarrow> cubie" where
  "snap c = c\<lparr>position := snap_position (position c), rotation := snap_rotation (rotation c)\<rparr>"

text \<open>
  The completion code of \<open>rotateSlice\<close>, the same on both paths: with the pivot at
  \<open>angle\<close>, every selected piece is re-attached to the group and snapped.
\<close>

definition finish_piece :: "euler_of \<Rightarrow> axis \<Rightarrow> real \<Rightarrow> real \<Rightarrow> cubie \<Rightarrow> cubie" where
  "finish_piece euler a index angle c =
     (if selected a index c then snap (attach_turned euler a angle c) else c)"

definition rotateSlice_finish :: "euler_of \<Rightarrow> axis \<Rightarrow> real \<Rightarrow> real \<Rightarrow> cubie list \<Rightarrow> cubie list" where
  "rotateSlice_finish euler a index angle cs = map (finish_piece euler a index angle) cs"

text \<open>
  The frame callback \<open>animate\<close>: \<open>frames\<close> are the timestamps that \<open>requestAnimationFrame\<close>
  passes, in order. The result is the list of pivot angles written and whether the promise
  has been resolved when the frames run out.
\<close>

fun animate :: "real \<Rightarrow> real \<Rightarrow> real \<Rightarrow> real \<Rightarrow> real list \<Rightarrow> real list \<times> bool" where
  "animate duration startTime startRot targetRot [] = ([], False)"
| "animate duration startTime startRot targetRot (time # frames) =
     (let elapsed = (time - startTime) / 1000;
          t = min (elapsed / duration) 1;
          ease = 1 - (1 - t) ^ 3;
          rot = startRot + (targetRot - startRot) * ease
      in if t < 1
         then (case animate duration startTime startRot targetRot frames of
                 (angles, resolved) \<Rightarrow> (rot # angles, resolved))
         else ([rot, targetRot], True))"

text \<open>
  \<open>rotateSlice\<close>: \<open>Some\<close> is the piece list when the returned promise is resolved (at once
  for duration 0), \<open>None\<close> a promise still pending after the given frames.
\<close>

definition rotateSlice ::
  "euler_of \<Rightarrow> axis \<Rightarrow> real \<Rightarrow> real \<Rightarrow> real \<Rightarrow> real \<Rightarrow> real list \<Rightarrow> cubie list \<Rightarrow> cubie list option" where
  "rotateSlice euler a index direction duration startTime frames cs =
     (if duration = 0
      then Some (rotateSlice_finish euler a index (0 + direction * pi / 2) cs)
      else
        let startRot = 0;
            targetRot = startRot + (direction * pi / 2)
        in if snd (animate duration startTime startRot targetRot frames)
           then Some (rotateSlice_finish euler a index targetRot cs)
           else None)"

text \<open>
  \<open>applyMove\<close> performs, in this order, one update of the logical cube and one or two
  awaited calls of \<open>rotateSlice\<close>. It is modelled by the list of these actions;
  \<open>move_slice\<close> is its computation of the axis, the layer and the direction.
\<close>

datatype action =
  LogicalMove move
| RotateSlice axis real real real

definition move_slice :: "move \<Rightarrow> axis \<times> real \<times> real" where
  "move_slice move =
     (let face = (case move of [] \<Rightarrow> None | c # _ \<Rightarrow> Some c);
          isPrime = (prime_char \<in> set move);
          (a, sliceIndex, direction) =
            (if face = Some CHR ''R'' then (X, 1, - 1)
             else if face = Some CHR ''L'' then (X, - 1, 1)
             else if face = Some CHR ''U'' then (Y, 1, - 1)
             else if face = Some CHR ''D'' then (Y, - 1, 1)
             else if face = Some CHR ''F'' then (Z, 1, - 1)
             else if face = Some CHR ''B'' then (Z, - 1, 1)
             else (Y, 0, 1))
      in (a, sliceIndex, if isPrime then direction * - 1 else direction))"

definition applyMove :: "move \<Rightarrow> real \<Rightarrow> action list" where
  "applyMove move duration =
     (case move_slice move of (a, sliceIndex, direction) \<Rightarrow>
        let isDouble = (double_char \<in> set move)
        in LogicalMove move #
           (if isDouble
            then [RotateSlice a sliceIndex direction duration,
                  RotateSlice a sliceIndex direction duration]
            else [RotateSlice a sliceIndex direction duration]))"

text \<open>
  The effect of an action once it has completed: for a rotation, the completion code at the
  target angle.
\<close>

fun perform :: "euler_of \<Rightarrow> action \<Rightarrow> cube \<Rightarrow> cube" where
  "perform euler (LogicalMove m) s = s\<lparr>logicalCube := logicalCube s @ [m]\<rparr>"
| "perform euler (RotateSlice a index direction duration) s =
     s\<lparr>cubies := rotateSlice_finish euler a index (direction * pi / 2) (cubies s)\<rparr>"

definition run_moves :: "euler_of \<Rightarrow> real \<Rightarrow> move list \<Rightarrow> cube \<Rightarrow> cube" where
  "run_moves euler duration moves s =
     foldl (\<lambda>s m. foldl (\<lambda>s act. perform euler act s) s (applyMove m duration)) s moves"

text \<open>\<open>initialPositions.pos\<close>: the three nested loops over \<open>-1, 0, 1\<close>.\<close>

definition initialPositions :: "vec3 list" where
  "initialPositions =
     concat (map (\<lambda>x. concat (map (\<lambda>y. map (\<lambda>z. (x, y, z)) [- 1, 0, 1]) [- 1, 0, 1])) [- 1, 0, 1])"

definition initial_cubies :: "cubie list" where
  "initial_cubies = map (\<lambda>p. \<lparr>position = p, rotation = (0, 0, 0)\<rparr>) initialPositions"

text \<open>
  \<open>resetToStep\<close>: a new logical cube, the pieces back at their initial places, the two
  loops of instant \<open>applyMove\<close> calls, and the two loops that move the logical cube again.
\<close>

definition resetToStep :: "euler_of \<Rightarrow> move list \<Rightarrow> nat \<Rightarrow> nat \<Rightarrow> cube \<Rightarrow> cube" where
  "resetToStep euler solutionMoves numExperiences targetStep s =
     (let s1 = s\<lparr>logicalCube := []\<rparr>;
          movesForStep = getMovesToReachStep solutionMoves numExperiences targetStep;
          reverseSolution = map invertMove (rev solutionMoves);
          s2 = s1\<lparr>cubies := initial_cubies\<rparr>;
          s3 = run_moves euler 0 reverseSolution s2;
          s4 = run_moves euler 0 movesForStep s3;
          s5 = foldl (\<lambda>s m. s\<lparr>logicalCube := logicalCube s @ [m]\<rparr>) s4 reverseSolution;
          s6 = foldl (\<lambda>s m. s\<lparr>logicalCube := logicalCube s @ [m]\<rparr>) s5 movesForStep
      in s6)"

text \<open>
  The visual arrangement that a sequence of moves produces from the solved cube.
\<close>

definition replay :: "euler_of \<Rightarrow> move list \<Rightarrow> cubie list" where
  "replay euler moves = cubies (run_moves euler 0 moves \<lparr>logicalCube = [], cubies = initial_cubies\<rparr>)"

text \<open>
  The positions alone. The place a piece is turned to does not depend on the Euler angles,
  so the positions of an arrangement are computed by the following projections of
  \<open>finish_piece\<close>, \<open>perform\<close> and \<open>run_moves\<close>.
\<close>

definition turn_position :: "axis \<Rightarrow> real \<Rightarrow> real \<Rightarrow> vec3 \<Rightarrow> vec3" where
  "turn_position a index angle p =
     (if \<bar>coord a p - index\<bar> < 1 / 10 then snap_position (rotate_point a angle p) else p)"

fun action_position :: "action \<Rightarrow> vec3 \<Rightarrow> vec3" where
  "action_position (LogicalMove m) p = p"
| "action_position (RotateSlice a index direction duration) p =
     turn_position a index (direction * pi / 2) p"

definition moves_position :: "move list \<Rightarrow> vec3 \<Rightarrow> vec3" where
  "moves_position moves p =
     foldl (\<lambda>p m. foldl (\<lambda>p act. action_position act p) p (applyMove m 0)) p moves"

text \<open>Durations: \<open>JUMP_DURATION\<close> in milliseconds, and the time a move's rotations take.\<close>

definition JUMP_DURATION :: real where
  "JUMP_DURATION = 600"

fun rotation_seconds :: "action \<Rightarrow> real" where
  "rotation_seconds (LogicalMove m) = 0"
| "rotation_seconds (RotateSlice a index direction duration) = duration"

definition move_milliseconds :: "move \<Rightarrow> real \<Rightarrow> real" where
  "move_milliseconds move duration = 1000 * sum_list (map rotation_seconds (applyMove move duration))"

text \<open>
  The random move of the shuffling loop, by the two indices drawn (\<open>i < 6\<close> and
  \<open>j < 3\<close>); the loop animates it at 0.3 s per rotation.
\<close>

definition shuffle_move :: "nat \<Rightarrow> nat \<Rightarrow> move" where
  "shuffle_move i j =
     [''U'', ''D'', ''L'', ''R'', ''F'', ''B''] ! i @ ['''', [prime_char], ''2''] ! j"

text \<open>
  A piece is grid-aligned when its three coordinates are integers and its three Euler
  angles are integer multiples of a quarter turn.
\<close>

definition grid_aligned :: "cubie \<Rightarrow> bool" where
  "grid_aligned c =
     (case position c of (x, y, z) \<Rightarrow>
      case rotation c of (rx, ry, rz) \<Rightarrow>
        x \<in> \<int> \<and> y \<in> \<int> \<and> z \<in> \<int> \<and>
        (\<exists>k::int. rx = of_int k * (pi / 2)) \<and>
        (\<exists>k::int. ry = of_int k * (pi / 2)) \<and>
        (\<exists>k::int. rz = of_int k * (pi / 2)))"

section \<open>The controller: queue, processing pass and navigation\<close>

text \<open>
  A queued transition; \<open>t_moves\<close> is the optional explicit move list.
\<close>

record transition =
  t_from :: nat
  t_to :: nat
  t_moves :: "move list option"

datatype animation = Idle | Waiting | Vibrating | Shuffling | Jump

text \<open>
  \<open>processQueue\<close> is an \<open>async\<close> function: it runs until it awaits a rotation and is
  resumed when that rotation's promise resolves. A \<open>pass\<close> is its suspended state: the
  rotation in flight, the rotations of the same \<open>applyMove\<close> still to come, the moves of
  the current transition after the current one, and the transition's duration and target.
\<close>

record pass =
  in_flight :: action
  pending :: "action list"
  later_moves :: "move list"
  pass_duration :: real
  pass_to :: nat

record controller =
  animationQueue :: "transition list"
  isProcessingQueue :: bool
  abortProcessing :: bool
  currentAnimatedStep :: nat
  lastQueuedStep :: nat
  isJumpingRef :: bool
  pendingStepRef :: "nat option"
  animationState :: animation
  isSolving :: bool
  jumpTimer :: "nat option"
  cubeState :: cube
  running :: "pass option"

text \<open>
  Running the actions of an \<open>applyMove\<close> up to the first awaited rotation: the update of
  the logical cube is synchronous, the first rotation becomes the rotation in flight.
\<close>

fun start_actions :: "euler_of \<Rightarrow> action list \<Rightarrow> cube \<Rightarrow> cube \<times> (action \<times> action list) option" where
  "start_actions euler [] c = (c, None)"
| "start_actions euler (LogicalMove m # acts) c =
     start_actions euler acts (perform euler (LogicalMove m) c)"
| "start_actions euler (RotateSlice a index direction duration # acts) c =
     (c, Some (RotateSlice a index direction duration, acts))"

text \<open>
  The \<open>for\<close> loop over the moves of a transition, from its head: it checks
  \<open>abortProcessing\<close> before every move and suspends in the first rotation of the move it
  starts. \<open>running = None\<close> in the result means that the loop has ended.
\<close>

fun for_moves :: "euler_of \<Rightarrow> real \<Rightarrow> nat \<Rightarrow> move list \<Rightarrow> controller \<Rightarrow> controller" where
  "for_moves euler duration to [] s = s\<lparr>running := None\<rparr>"
| "for_moves euler duration to (m # moves) s =
     (if abortProcessing s then s\<lparr>running := None\<rparr>
      else
        (case start_actions euler (applyMove m duration) (cubeState s) of
           (c, Some (r, rest)) \<Rightarrow>
             s\<lparr>cubeState := c,
               running := Some \<lparr>in_flight = r, pending = rest, later_moves = moves,
                 pass_duration = duration, pass_to = to\<rparr>\<rparr>
         | (c, None) \<Rightarrow> for_moves euler duration to moves (s\<lparr>cubeState := c\<rparr>)))"

text \<open>
  The \<open>while\<close> loop of \<open>processQueue\<close>, from its head, over the queue contents: it leaves
  when the queue is empty or \<open>abortProcessing\<close> is set, and clears the processing flag then.
\<close>

fun while_queue :: "euler_of \<Rightarrow> move list \<Rightarrow> nat \<Rightarrow> transition list \<Rightarrow> controller \<Rightarrow> controller" where
  "while_queue euler solutionMoves n [] s =
     s\<lparr>animationQueue := [], isProcessingQueue := False, isSolving := False\<rparr>"
| "while_queue euler solutionMoves n (t # queue) s =
     (if abortProcessing s
      then s\<lparr>animationQueue := t # queue, isProcessingQueue := False, isSolving := False\<rparr>
      else
        let (moves, duration) =
              (case t_moves t of
                 Some ms \<Rightarrow> (ms, 25 / 100)
               | None \<Rightarrow> getMovesForTransition solutionMoves n (t_from t) (t_to t));
            s1 = for_moves euler duration (t_to t) moves (s\<lparr>animationQueue := queue\<rparr>)
        in (case running s1 of
              Some p \<Rightarrow> s1
            | None \<Rightarrow> while_queue euler solutionMoves n queue (s1\<lparr>currentAnimatedStep := t_to t\<rparr>)))"

definition processQueue :: "euler_of \<Rightarrow> move list \<Rightarrow> nat \<Rightarrow> controller \<Rightarrow> controller" where
  "processQueue euler solutionMoves n s =
     (if isProcessingQueue s \<or> length (animationQueue s) = 0 then s
      else while_queue euler solutionMoves n (animationQueue s)
             (s\<lparr>isProcessingQueue := True, isSolving := True, abortProcessing := False\<rparr>))"

text \<open>
  The continuation of \<open>processQueue\<close> when the rotation in flight resolves: the rotation
  is completed; the next rotation of the same \<open>applyMove\<close> starts without any test; after
  the last one the \<open>for\<close> loop goes on with the next move.
\<close>

definition resume :: "euler_of \<Rightarrow> move list \<Rightarrow> nat \<Rightarrow> controller \<Rightarrow> controller" where
  "resume euler solutionMoves n s =
     (case running s of
        None \<Rightarrow> s
      | Some p \<Rightarrow>
          (case start_actions euler (pending p) (perform euler (in_flight p) (cubeState s)) of
             (c, Some (r, rest)) \<Rightarrow>
               s\<lparr>cubeState := c, running := Some (p\<lparr>in_flight := r, pending := rest\<rparr>)\<rparr>
           | (c, None) \<Rightarrow>
               let s1 = for_moves euler (pass_duration p) (pass_to p) (later_moves p)
                          (s\<lparr>cubeState := c, running := None\<rparr>)
               in (case running s1 of
                     Some q \<Rightarrow> s1
                   | None \<Rightarrow> while_queue euler solutionMoves n (animationQueue s1)
                               (s1\<lparr>currentAnimatedStep := pass_to p\<rparr>))))"

text \<open>The cancellation of \<open>handleStepChange\<close>: the flag is set and the queue emptied.\<close>

definition cancel :: "controller \<Rightarrow> controller" where
  "cancel s = s\<lparr>abortProcessing := True, animationQueue := []\<rparr>"

text \<open>
  \<open>solveMovesString.split(' ').filter(m => m.trim() !== '')\<close>, on strings of one-byte
  characters.
\<close>

fun split_on :: "char \<Rightarrow> string \<Rightarrow> string list" where
  "split_on sep [] = [[]]"
| "split_on sep (c # cs) =
     (if c = sep then [] # split_on sep cs
      else (case split_on sep cs of
              w # ws \<Rightarrow> (c # w) # ws
            | [] \<Rightarrow> [[c]]))"

definition is_space :: "char \<Rightarrow> bool" where
  "is_space c = (c \<in> {CHR 0x09, CHR 0x0A, CHR 0x0B, CHR 0x0C, CHR 0x0D, CHR 0x20, CHR 0xA0})"

definition trim :: "string \<Rightarrow> string" where
  "trim s = rev (dropWhile is_space (rev (dropWhile is_space s)))"

definition solve_tokens :: "string \<Rightarrow> move list" where
  "solve_tokens solveMovesString = filter (\<lambda>m. trim m \<noteq> []) (split_on CHR 0x20 solveMovesString)"

text \<open>
  \<open>handleStepChange\<close> up to its final call of \<open>processQueue\<close>; the flag tells whether
  that call follows. \<open>solve\<close> is the \<open>solve\<close> method of cubejs, a function of the logical
  cube. The jump branch records the target of the timer it sets.
\<close>

definition queueStepChange ::
  "(move list \<Rightarrow> string) \<Rightarrow> nat \<Rightarrow> nat \<Rightarrow> controller \<Rightarrow> controller \<times> bool" where
  "queueStepChange solve n targetStep s =
     (let lastQueued = lastQueuedStep s
      in if targetStep = lastQueued then (s, False)
         else if int lastQueued = int n - 1 \<and> int targetStep = int n - 2
         then ((cancel s)\<lparr>animationState := Jump, isJumpingRef := True,
                 jumpTimer := Some targetStep\<rparr>, False)
         else if int targetStep = int n - 1 \<and> int lastQueued \<noteq> int targetStep - 1
         then
           let solveMoves = solve_tokens (solve (logicalCube (cubeState s)))
           in (s\<lparr>animationQueue :=
                   [\<lparr>t_from = lastQueued, t_to = targetStep, t_moves = Some solveMoves\<rparr>],
                 abortProcessing := False,
                 lastQueuedStep := targetStep\<rparr>, True)
         else
           let pushed =
                 (if targetStep > lastQueued
                  then map (\<lambda>k. \<lparr>t_from = k - 1, t_to = k, t_moves = None\<rparr>)
                         [lastQueued + 1 ..< targetStep + 1]
                  else if targetStep < lastQueued
                  then (if int lastQueued = int n - 1 \<and> targetStep = 0
                        then [\<lparr>t_from = lastQueued, t_to = 0, t_moves = None\<rparr>]
                        else map (\<lambda>k. \<lparr>t_from = k + 1, t_to = k, t_moves = None\<rparr>)
                               (rev [targetStep ..< lastQueued]))
                  else [])
           in (s\<lparr>abortProcessing := False,
                 animationQueue := animationQueue s @ pushed,
                 lastQueuedStep := targetStep\<rparr>, True))"

definition handleStepChange ::
  "euler_of \<Rightarrow> (move list \<Rightarrow> string) \<Rightarrow> move list \<Rightarrow> nat \<Rightarrow> nat \<Rightarrow> controller \<Rightarrow> controller" where
  "handleStepChange euler solve solutionMoves n targetStep s =
     (case queueStepChange solve n targetStep s of
        (s1, call) \<Rightarrow> if call then processQueue euler solutionMoves n s1 else s1)"

text \<open>Whether an action is a rotation, for counting the rotations of a pass.\<close>

fun is_rotation :: "action \<Rightarrow> bool" where
  "is_rotation (LogicalMove m) = False"
| "is_rotation (RotateSlice a index direction duration) = True"

text \<open>A controller at rest at milestone \<open>k\<close>: nothing queued, no pass, no jump.\<close>

definition at_rest :: "nat \<Rightarrow> cube \<Rightarrow> controller" where
  "at_rest k c =
     \<lparr>animationQueue = [], isProcessingQueue = False, abortProcessing = False,
      currentAnimatedStep = k, lastQueuedStep = k, isJumpingRef = False,
      pendingStepRef = None, animationState = Idle, isSolving = False,
      jumpTimer = None, cubeState = c, running = None\<rparr>"

section \<open>The checkpoint table\<close>

subsection \<open>Rounding to double precision\<close>

lemma round_half_even_error: "\<bar>of_int (round_half_even t) - t\<bar> \<le> 1 / 2"
  unfolding round_half_even_def Let_def
  by (auto simp: abs_le_iff)

lemma double_of_error: "\<bar>double_of x - x\<bar> \<le> \<bar>x\<bar> / 2 ^ 53"
proof (cases "x = 0")
  case True
  then show ?thesis by (simp add: double_of_def)
next
  case False
  define e where "e = \<lfloor>log 2 \<bar>x\<bar>\<rfloor>"
  define ulp :: real where "ulp = 2 powr (of_int e - 52)"
  have ax: "0 < \<bar>x\<bar>" using False by simp
  have ulp: "0 < ulp" by (simp add: ulp_def)
  have lo: "2 powr (of_int e) \<le> \<bar>x\<bar>"
    using floor_log_eq_powr_iff [of "\<bar>x\<bar>" 2 e] ax e_def by simp
  have "ulp = 2 powr (of_int e) / 2 ^ 52"
    by (simp add: ulp_def powr_diff)
  then have u2: "ulp / 2 \<le> \<bar>x\<bar> / 2 ^ 53"
    using lo by (simp add: field_simps)
  have d: "double_of x = of_int (round_half_even (x / ulp)) * ulp"
    using False by (simp add: double_of_def e_def ulp_def Let_def)
  have "double_of x - x = (of_int (round_half_even (x / ulp)) - x / ulp) * ulp"
    using ulp by (simp add: d left_diff_distrib)
  then have "\<bar>double_of x - x\<bar> = \<bar>of_int (round_half_even (x / ulp)) - x / ulp\<bar> * ulp"
    using ulp by (simp add: abs_mult)
  also have "\<dots> \<le> (1 / 2) * ulp"
    using round_half_even_error [of "x / ulp"] ulp by (intro mult_right_mono) simp_all
  also have "\<dots> \<le> \<bar>x\<bar> / 2 ^ 53"
    using u2 by simp
  finally show ?thesis .
qed

lemma double_of_bounds:
  assumes "0 \<le> x"
  shows "x * (1 - 1 / 2 ^ 53) \<le> double_of x" "double_of x \<le> x * (1 + 1 / 2 ^ 53)"
proof -
  have e: "\<bar>double_of x - x\<bar> \<le> x / 2 ^ 53"
    using double_of_error [of x] assms by simp
  then have "double_of x - x \<le> x / 2 ^ 53" "x - double_of x \<le> x / 2 ^ 53"
    by linarith+
  then show "x * (1 - 1 / 2 ^ 53) \<le> double_of x" "double_of x \<le> x * (1 + 1 / 2 ^ 53)"
    by (simp_all add: field_simps)
qed

lemma double_of_nonneg: "0 \<le> x \<Longrightarrow> 0 \<le> double_of x"
proof -
  assume x: "0 \<le> x"
  have "0 \<le> x * (1 - 1 / 2 ^ 53)" using x by (intro mult_nonneg_nonneg) simp_all
  with double_of_bounds(1) [OF x] show ?thesis by linarith
qed

lemma double_of_eval:
  assumes "0 < x" "2 powr (of_int e) \<le> x" "x < 2 powr (of_int e + 1)"
  shows "double_of x = of_int (round_half_even (x / 2 powr (of_int e - 52))) * 2 powr (of_int e - 52)"
proof -
  have "\<lfloor>log 2 \<bar>x\<bar>\<rfloor> = e"
    using floor_log_eq_powr_iff [of "\<bar>x\<bar>" 2 e] assms by simp
  then show ?thesis
    using assms(1) by (simp add: double_of_def Let_def)
qed

text \<open>
  The product of the interpolation, before \<open>Math.round\<close>: within a factor
  \<open>(1 \<plusminus> 2 ^ -53)\<^sup>2\<close> of the exact quotient.
\<close>

lemma interp_value_bounds:
  assumes "3 \<le> n" "0 \<le> p"
  shows "real i * (real_of_int p / real_of_int (int n - 2)) * (1 - 1 / 2 ^ 53) * (1 - 1 / 2 ^ 53)
      \<le> interp_value n p i"
    and "interp_value n p i
      \<le> real i * (real_of_int p / real_of_int (int n - 2)) * (1 + 1 / 2 ^ 53) * (1 + 1 / 2 ^ 53)"
    and "0 \<le> interp_value n p i"
proof -
  let ?q = "real_of_int p / real_of_int (int n - 2)"
  let ?q' = "double_of ?q"
  have q: "0 \<le> ?q" using assms by simp
  have q': "0 \<le> ?q'" using q by (rule double_of_nonneg)
  have iq': "0 \<le> real i * ?q'" using q' by simp
  note b1 = double_of_bounds [OF q]
  note b2 = double_of_bounds [OF iq']
  have "real i * ?q * (1 - 1 / 2 ^ 53) * (1 - 1 / 2 ^ 53)
      = real i * (?q * (1 - 1 / 2 ^ 53)) * (1 - 1 / 2 ^ 53)"
    by (simp only: mult.assoc)
  also have "\<dots> \<le> real i * ?q' * (1 - 1 / 2 ^ 53)"
    using b1(1) by (intro mult_right_mono mult_left_mono) simp_all
  also have "\<dots> \<le> double_of (real i * ?q')"
    by (rule b2(1))
  finally show "real i * ?q * (1 - 1 / 2 ^ 53) * (1 - 1 / 2 ^ 53) \<le> interp_value n p i"
    by (simp only: interp_value_def)
  have "double_of (real i * ?q') \<le> real i * ?q' * (1 + 1 / 2 ^ 53)"
    by (rule b2(2))
  also have "\<dots> \<le> real i * (?q * (1 + 1 / 2 ^ 53)) * (1 + 1 / 2 ^ 53)"
    using b1(2) by (intro mult_right_mono mult_left_mono) simp_all
  also have "\<dots> = real i * ?q * (1 + 1 / 2 ^ 53) * (1 + 1 / 2 ^ 53)"
    by (simp only: mult.assoc)
  finally show "interp_value n p i \<le> real i * ?q * (1 + 1 / 2 ^ 53) * (1 + 1 / 2 ^ 53)"
    by (simp only: interp_value_def)
  show "0 \<le> interp_value n p i"
    unfolding interp_value_def using iq' by (rule double_of_nonneg)
qed


lemma interp_value_mono:
  assumes "3 \<le> n" "0 \<le> p" "i \<le> j" "j < 2 ^ 32"
  shows "interp_value n p i \<le> interp_value n p j"
proof (cases "i = j")
  case True
  then show ?thesis by simp
next
  case False
  let ?q' = "double_of (real_of_int p / real_of_int (int n - 2))"
  have q': "0 \<le> ?q'" using assms(1,2) by (intro double_of_nonneg) simp
  have ij: "real i + 1 \<le> real j" using False assms(3) by linarith
  have i: "real i < 2 ^ 32" using assms(3,4)
    by (metis le_less_trans of_nat_less_numeral_power_cancel_iff)
  have c: "real i * (1 + 1 / 2 ^ 53) \<le> real j * (1 - 1 / 2 ^ 53)"
    using ij i by (simp add: field_simps)
  have "interp_value n p i \<le> real i * ?q' * (1 + 1 / 2 ^ 53)"
    unfolding interp_value_def using q' by (intro double_of_bounds(2)) simp
  also have "\<dots> = (real i * (1 + 1 / 2 ^ 53)) * ?q'"
    by (simp only: mult_ac)
  also have "\<dots> \<le> (real j * (1 - 1 / 2 ^ 53)) * ?q'"
    using c q' by (rule mult_right_mono)
  also have "\<dots> = real j * ?q' * (1 - 1 / 2 ^ 53)"
    by (simp only: mult_ac)
  also have "\<dots> \<le> interp_value n p j"
    unfolding interp_value_def using q' by (intro double_of_bounds(1)) simp
  finally show ?thesis .
qed

lemma interp_mono:
  assumes "3 \<le> n" "0 \<le> p" "i \<le> j" "j < 2 ^ 32"
  shows "interp n p i \<le> interp n p j"
  unfolding interp_def using interp_value_mono [OF assms] by (rule round_mono)

lemma interp_zero: "interp n p 0 = 0"
  by (simp add: interp_def interp_value_def double_of_def)

text \<open>Below the entry \<open>n - 2\<close>, the rounded product does not exceed \<open>p\<close>.\<close>

lemma interp_le_top:
  assumes "3 \<le> n" "0 \<le> p" "i < n - 2" "n < 2 ^ 32"
  shows "interp n p i \<le> p"
proof -
  let ?k = "real_of_int (int n - 2)"
  have k: "0 < ?k" using assms(1) by simp
  have kn: "?k = real n - 2" by simp
  have nb: "real n < 2 ^ 32" using assms(4)
    by (metis of_nat_less_numeral_power_cancel_iff)
  have "i + 1 \<le> n - 2" using assms(3) by simp
  then have "real (i + 1) \<le> real (n - 2)" by (simp only: of_nat_le_iff)
  then have ik: "real i + 1 \<le> ?k" using assms(1) by (simp add: of_nat_diff)
  have c: "real i * ((1 + 1 / 2 ^ 53) * (1 + 1 / 2 ^ 53)) \<le> ?k"
    using ik nb kn by (simp add: field_simps)
  have p: "0 \<le> real_of_int p / ?k" using assms(2) k by simp
  have "interp_value n p i \<le> real i * (real_of_int p / ?k) * (1 + 1 / 2 ^ 53) * (1 + 1 / 2 ^ 53)"
    using assms(1,2) by (rule interp_value_bounds(2))
  also have "\<dots> = (real i * ((1 + 1 / 2 ^ 53) * (1 + 1 / 2 ^ 53))) * (real_of_int p / ?k)"
    by (simp only: mult_ac)
  also have "\<dots> \<le> ?k * (real_of_int p / ?k)"
    using c p by (rule mult_right_mono)
  also have "\<dots> = real_of_int p"
    using k by simp
  finally have "round (interp_value n p i) \<le> round (real_of_int p)"
    by (rule round_mono)
  then show ?thesis
    by (simp add: interp_def)
qed

lemma near_exact:
  fixes x y :: real
  assumes "0 \<le> x" "x < 2 ^ 32"
    "x * (1 - 1 / 2 ^ 53) * (1 - 1 / 2 ^ 53) \<le> y"
    "y \<le> x * (1 + 1 / 2 ^ 53) * (1 + 1 / 2 ^ 53)"
  shows "x - 1 / 2 < y" "y < x + 1 / 2"
  using assms by (simp_all add: field_simps)

text \<open>The rounded product is the floor or the ceiling of the exact quotient.\<close>

lemma interp_floor_ceiling:
  assumes "3 \<le> n" "0 \<le> p" "i < n - 2" "p < 2 ^ 32"
  shows "\<lfloor>real i * real_of_int p / real (n - 2)\<rfloor> \<le> interp n p i"
    and "interp n p i \<le> \<lceil>real i * real_of_int p / real (n - 2)\<rceil>"
proof -
  let ?k = "real_of_int (int n - 2)"
  let ?x = "real i * (real_of_int p / ?k)"
  have k: "0 < ?k" using assms(1) by simp
  have kk: "?k = real (n - 2)" using assms(1) by (simp add: of_nat_diff)
  have xe: "real i * real_of_int p / real (n - 2) = ?x"
    by (simp only: kk times_divide_eq_right)
  have x0: "0 \<le> ?x" using assms(2) k by simp
  have "real i \<le> ?k" using assms(1,3) by (simp add: of_nat_diff)
  then have "real i / ?k \<le> 1" using k by simp
  then have "real_of_int p * (real i / ?k) \<le> real_of_int p * 1"
    using assms(2) by (intro mult_left_mono) simp_all
  then have "?x \<le> real_of_int p" by (simp add: field_simps)
  moreover have "real_of_int p < 2 ^ 32" using assms(4)
    by (metis of_int_less_numeral_power_cancel_iff)
  ultimately have x1: "?x < 2 ^ 32" by linarith
  have lo: "?x * (1 - 1 / 2 ^ 53) * (1 - 1 / 2 ^ 53) \<le> interp_value n p i"
    using assms(1,2) by (rule interp_value_bounds(1))
  have hi: "interp_value n p i \<le> ?x * (1 + 1 / 2 ^ 53) * (1 + 1 / 2 ^ 53)"
    using assms(1,2) by (rule interp_value_bounds(2))
  have near: "?x - 1 / 2 < interp_value n p i" "interp_value n p i < ?x + 1 / 2"
    using x0 x1 lo hi by (rule near_exact)+
  have "of_int \<lfloor>?x\<rfloor> \<le> interp_value n p i + 1 / 2"
    using near(1) of_int_floor_le [of ?x] by linarith
  then have "\<lfloor>?x\<rfloor> \<le> \<lfloor>interp_value n p i + 1 / 2\<rfloor>"
    by (simp add: le_floor_iff)
  then show "\<lfloor>real i * real_of_int p / real (n - 2)\<rfloor> \<le> interp n p i"
    by (simp only: xe interp_def round_def)
  have "interp_value n p i + 1 / 2 < of_int (\<lceil>?x\<rceil> + 1)"
    using near(2) le_of_int_ceiling [of ?x] by simp linarith
  then have "\<lfloor>interp_value n p i + 1 / 2\<rfloor> < \<lceil>?x\<rceil> + 1"
    by (simp only: floor_less_iff)
  then show "interp n p i \<le> \<lceil>real i * real_of_int p / real (n - 2)\<rceil>"
    by (simp only: xe interp_def round_def)
qed

subsection \<open>The table\<close>

lemma array_set_in_range:
  "i < length xs \<Longrightarrow> array_set xs (int i) v = xs[i := v]"
  by (simp add: array_set_def)

lemma foldl_update_length:
  "length (foldl (\<lambda>cp i. cp[i := f i]) xs is) = length xs"
  by (induction "is" arbitrary: xs) simp_all

lemma foldl_array_set_upt:
  "b \<le> length xs \<Longrightarrow>
   foldl (\<lambda>cp i. array_set cp (int i) (f i)) xs [a ..< b] =
   foldl (\<lambda>cp i. cp[i := f i]) xs [a ..< b]"
proof (induction b)
  case 0
  then show ?case by simp
next
  case (Suc b)
  then show ?case
    by (auto simp: array_set_in_range foldl_update_length)
qed

lemma foldl_update_nth:
  "j < length xs \<Longrightarrow>
   foldl (\<lambda>cp i. cp[i := f i]) xs [a ..< b] ! j =
     (if a \<le> j \<and> j < b then f j else xs ! j)"
proof (induction b)
  case 0
  then show ?case by simp
next
  case (Suc b)
  show ?case
  proof (cases "a \<le> b")
    case True
    with Suc show ?thesis
      by (cases "j = b") (auto simp: foldl_update_length)
  next
    case False
    with Suc show ?thesis by auto
  qed
qed

lemma moveCheckpoints_unfold:
  assumes "solutionMoves \<noteq> []" "3 \<le> n"
  shows "moveCheckpoints solutionMoves n =
     foldl (\<lambda>cp i. cp[i := interp n (max 0 (int (length solutionMoves) - 3)) i])
       ((replicate n 0)[0 := 0, n - 1 := int (length solutionMoves),
          n - 2 := max 0 (int (length solutionMoves) - 3)])
       [1 ..< n - 2]"
proof -
  let ?T = "int (length solutionMoves)"
  let ?P = "max 0 (?T - 3)"
  let ?c0 = "replicate n (0::int)"
  have i1: "int n - 1 = int (n - 1)" and i2: "int n - 2 = int (n - 2)"
    using assms(2) by simp_all
  have c1: "array_set ?c0 0 0 = ?c0[0 := 0]"
    using assms(2) array_set_in_range [of 0 ?c0 0] by simp
  have c2: "array_set (?c0[0 := 0]) (int n - 1) ?T = ?c0[0 := 0, n - 1 := ?T]"
    unfolding i1 using assms(2) by (intro array_set_in_range) simp
  have c3: "array_set (?c0[0 := 0, n - 1 := ?T]) (int n - 2) ?P
      = ?c0[0 := 0, n - 1 := ?T, n - 2 := ?P]"
    unfolding i2 using assms(2) by (intro array_set_in_range) simp
  have f: "foldl (\<lambda>cp i. array_set cp (int i) (interp n ?P i))
       (?c0[0 := 0, n - 1 := ?T, n - 2 := ?P]) [1 ..< n - 2]
     = foldl (\<lambda>cp i. cp[i := interp n ?P i])
       (?c0[0 := 0, n - 1 := ?T, n - 2 := ?P]) [1 ..< n - 2]"
    by (intro foldl_array_set_upt) simp
  let ?step = "\<lambda>cp i. array_set cp (int i) (interp n ?P i)"
  let ?c3 = "array_set (array_set (array_set ?c0 0 0) (int n - 1) ?T) (int n - 2) ?P"
  have c3': "?c3 = ?c0[0 := 0, n - 1 := ?T, n - 2 := ?P]"
    by (simp only: c1 c2 c3)
  have "moveCheckpoints solutionMoves n = foldl ?step ?c3 [1 ..< n - 2]"
  proof (cases "int n - 2 > 1")
    case True
    then show ?thesis
      using assms unfolding moveCheckpoints_def Let_def interp_def interp_value_def
      by simp
  next
    case False
    then have "n = 3" using assms(2) by simp
    then show ?thesis
      using assms(1) unfolding moveCheckpoints_def Let_def
      by simp
  qed
  also have "\<dots> = foldl ?step (?c0[0 := 0, n - 1 := ?T, n - 2 := ?P]) [1 ..< n - 2]"
    by (simp only: c3')
  also note f
  finally show ?thesis .
qed

lemma moveCheckpoints_length:
  assumes "solutionMoves \<noteq> []" "3 \<le> n"
  shows "length (moveCheckpoints solutionMoves n) = n"
  by (simp add: moveCheckpoints_unfold [OF assms] foldl_update_length)

lemma moveCheckpoints_nth:
  assumes "solutionMoves \<noteq> []" "3 \<le> n" "j < n"
  shows "moveCheckpoints solutionMoves n ! j =
     (if j = n - 1 then int (length solutionMoves)
      else if j = n - 2 then max 0 (int (length solutionMoves) - 3)
      else if j = 0 then 0
      else interp n (max 0 (int (length solutionMoves) - 3)) j)"
  using assms(2,3)
  by (auto simp: moveCheckpoints_unfold [OF assms(1,2)] foldl_update_nth)

lemma moveCheckpoints_sorted:
  assumes "solutionMoves \<noteq> []" "3 \<le> n" "n < 2 ^ 32"
  shows "sorted (moveCheckpoints solutionMoves n)"
proof -
  let ?T = "int (length solutionMoves)"
  let ?p = "max 0 (?T - 3)"
  let ?cp = "moveCheckpoints solutionMoves n"
  have len: "length ?cp = n"
    using assms(1,2) by (simp add: moveCheckpoints_length)
  have p: "0 \<le> ?p" by simp
  have below: "?cp ! i = interp n ?p i" if "i < n - 2" for i
    using that assms(1,2) by (cases "i = 0") (simp_all add: moveCheckpoints_nth interp_zero)
  have pre: "?cp ! (n - 2) = ?p"
    using assms(1,2) by (simp add: moveCheckpoints_nth)
  have fin: "?cp ! (n - 1) = ?T"
    using assms(1,2) by (simp add: moveCheckpoints_nth)
  have "?cp ! i \<le> ?cp ! j" if ij: "i \<le> j" and jn: "j < n" for i j
  proof -
    consider "j < n - 2" | "j = n - 2" | "j = n - 1"
      using jn by linarith
    then show ?thesis
    proof cases
      case 1
      then have "i < n - 2" using ij by simp
      moreover have "j < 2 ^ 32" using jn assms(3) by simp
      ultimately show ?thesis
        using 1 ij assms(2) p by (simp add: below interp_mono)
    next
      case 2
      show ?thesis
      proof (cases "i = n - 2")
        case True
        with 2 show ?thesis by simp
      next
        case False
        then have "i < n - 2" using ij 2 by simp
        then show ?thesis
          using 2 assms(2,3) p by (simp add: below pre interp_le_top)
      qed
    next
      case 3
      then have top: "?cp ! j = ?T" using fin by simp
      consider "i < n - 2" | "i = n - 2" | "i = n - 1"
        using ij jn by linarith
      then show ?thesis
      proof cases
        case 1
        then have "interp n ?p i \<le> ?p"
          using assms(2,3) p by (intro interp_le_top)
        also have "?p \<le> ?T" by simp
        finally show ?thesis
          unfolding top below [OF 1] .
      next
        case 2
        then have "?cp ! i = ?p" using pre by simp
        then show ?thesis unfolding top by simp
      next
        case 3
        with \<open>j = n - 1\<close> show ?thesis by simp
      qed
    qed
  qed
  then show ?thesis
    by (simp add: sorted_iff_nth_mono len)
qed

text \<open>
  Claim C2, as amended. For every milestone count \<open>n \<ge> 3\<close> (array lengths are below
  \<open>2 ^ 32\<close>): an empty scramble gives the empty table (the guard at the head of
  \<open>moveCheckpoints\<close>); a scramble of \<open>T \<ge> 1\<close> moves gives a table of length \<open>n\<close> whose
  entry 0 is 0, whose last entry is \<open>T\<close>, whose entry \<open>n - 2\<close> is \<open>max 0 (T - 3)\<close>, whose
  entries \<open>1 \<dots> n - 3\<close> are \<open>Math.round\<close> of the double-precision product
  \<open>i * (max 0 (T - 3) / (n - 2))\<close>, each the floor or the ceiling of the exact quotient
  \<open>i * max 0 (T - 3) / (n - 2)\<close>, and which is non-decreasing.
\<close>

theorem moveCheckpoints_table:
  assumes "3 \<le> n" "n < 2 ^ 32" "length solutionMoves < 2 ^ 32"
  shows "(solutionMoves = [] \<longrightarrow> moveCheckpoints solutionMoves n = []) \<and>
    (solutionMoves \<noteq> [] \<longrightarrow>
      length (moveCheckpoints solutionMoves n) = n \<and>
      moveCheckpoints solutionMoves n ! 0 = 0 \<and>
      moveCheckpoints solutionMoves n ! (n - 1) = int (length solutionMoves) \<and>
      moveCheckpoints solutionMoves n ! (n - 2) = max 0 (int (length solutionMoves) - 3) \<and>
      (\<forall>i. 1 \<le> i \<and> i \<le> n - 3 \<longrightarrow>
         moveCheckpoints solutionMoves n ! i =
           round (double_of (real i *
             double_of (real_of_int (max 0 (int (length solutionMoves) - 3)) / real (n - 2)))) \<and>
         \<lfloor>real i * real_of_int (max 0 (int (length solutionMoves) - 3)) / real (n - 2)\<rfloor>
           \<le> moveCheckpoints solutionMoves n ! i \<and>
         moveCheckpoints solutionMoves n ! i
           \<le> \<lceil>real i * real_of_int (max 0 (int (length solutionMoves) - 3)) / real (n - 2)\<rceil>) \<and>
      sorted (moveCheckpoints solutionMoves n))"
proof (intro conjI impI allI)
  assume "solutionMoves = []"
  then show "moveCheckpoints solutionMoves n = []"
    by (simp add: moveCheckpoints_def)
next
  assume ne: "solutionMoves \<noteq> []"
  show "length (moveCheckpoints solutionMoves n) = n"
    using ne assms(1) by (simp add: moveCheckpoints_length)
  show "moveCheckpoints solutionMoves n ! 0 = 0"
    using ne assms(1) by (simp add: moveCheckpoints_nth)
  show "moveCheckpoints solutionMoves n ! (n - 1) = int (length solutionMoves)"
    using ne assms(1) by (simp add: moveCheckpoints_nth)
  show "moveCheckpoints solutionMoves n ! (n - 2) = max 0 (int (length solutionMoves) - 3)"
    using ne assms(1) by (simp add: moveCheckpoints_nth)
  show "sorted (moveCheckpoints solutionMoves n)"
    using ne assms(1,2) by (rule moveCheckpoints_sorted)
next
  fix i
  assume ne: "solutionMoves \<noteq> []" and i: "1 \<le> i \<and> i \<le> n - 3"
  let ?p = "max 0 (int (length solutionMoves) - 3)"
  have "int n - 2 = int (n - 2)" using assms(1) by simp
  then have k: "real_of_int (int n - 2) = real (n - 2)" by (simp only: of_int_of_nat_eq)
  have idx: "i < n" "i \<noteq> n - 1" "i \<noteq> n - 2" "i \<noteq> 0" "i < n - 2"
    using i assms(1) by auto
  have entry: "moveCheckpoints solutionMoves n ! i = interp n ?p i"
    using idx(1-4) ne assms(1) by (simp add: moveCheckpoints_nth)
  have p: "0 \<le> ?p" by simp
  have pb: "?p < 2 ^ 32"
  proof -
    have "int (length solutionMoves) < 2 ^ 32"
      using assms(3) by (metis of_nat_less_numeral_power_cancel_iff)
    then show ?thesis by simp
  qed
  show "moveCheckpoints solutionMoves n ! i =
      round (double_of (real i * double_of (real_of_int ?p / real (n - 2))))"
    unfolding entry interp_def interp_value_def by (simp only: k)
  show "\<lfloor>real i * real_of_int ?p / real (n - 2)\<rfloor> \<le> moveCheckpoints solutionMoves n ! i"
    unfolding entry using assms(1) p idx(5) pb by (rule interp_floor_ceiling(1))
  show "moveCheckpoints solutionMoves n ! i \<le> \<lceil>real i * real_of_int ?p / real (n - 2)\<rceil>"
    unfolding entry using assms(1) p idx(5) pb by (rule interp_floor_ceiling(2))
qed

text \<open>
  Sixteen milestones and 64 moves: the exact quotient \<open>7 * 61 / 14\<close> is the tie 30.5, the
  double product is just below it, and entry 7 is 30.
\<close>

lemma quotient_61_14: "double_of (61 / 14) = 4905706736957147 / 1125899906842624"
proof -
  have e: "double_of (61 / 14) =
      of_int (round_half_even ((61 / 14) / 2 powr (of_int 2 - 52))) * 2 powr (of_int 2 - 52)"
    by (rule double_of_eval) simp_all
  have p: "(2::real) powr (of_int 2 - 52) = 1 / 1125899906842624"
    by (simp add: powr_minus_divide)
  show ?thesis
    unfolding e p by (simp add: round_half_even_def Let_def)
qed

lemma product_7_61_14:
  "double_of (7 * double_of (61 / 14)) = 8584986789675007 / 281474976710656"
proof -
  have e: "double_of (34339947158700029 / 1125899906842624) =
      of_int (round_half_even ((34339947158700029 / 1125899906842624) / 2 powr (of_int 4 - 52)))
        * 2 powr (of_int 4 - 52)"
    by (rule double_of_eval) simp_all
  have p: "(2::real) powr (of_int 4 - 52) = 1 / 281474976710656"
    by (simp add: powr_minus_divide)
  have "double_of (7 * double_of (61 / 14)) = double_of (34339947158700029 / 1125899906842624)"
    by (simp add: quotient_61_14)
  also have "\<dots> = 8584986789675007 / 281474976710656"
    unfolding e p by (simp add: round_half_even_def Let_def)
  finally show ?thesis .
qed

lemma entry_7_of_16_64: "interp 16 61 7 = 30"
  by (simp add: interp_def interp_value_def product_7_61_14 round_def)

text \<open>
  The claim as stated includes \<open>T = 0\<close>, where the table is empty and not of length \<open>n\<close>,
  and gives 31 for entry 7 of sixteen milestones and 64 moves, where the table has 30.
\<close>

theorem moveCheckpoints_table_counterexample:
  "length (moveCheckpoints [] 3) \<noteq> 3 \<and>
   moveCheckpoints (replicate 64 ''R'') 16 ! 7 = 30 \<and>
   round ((7::real) * real_of_int (max 0 (64 - 3)) / (16 - 2)) = 31"
proof -
  have "moveCheckpoints (replicate 64 ''R'') 16 ! 7 = interp 16 61 7"
    by (simp add: moveCheckpoints_nth)
  then show ?thesis
    by (simp add: moveCheckpoints_def entry_7_of_16_64 round_def)
qed

theorem moveCheckpoints_table_witness:
  "length (moveCheckpoints (replicate 64 ''R'') 16) = 16 \<and>
   moveCheckpoints (replicate 64 ''R'') 16 ! 0 = 0 \<and>
   moveCheckpoints (replicate 64 ''R'') 16 ! 15 = 64 \<and>
   moveCheckpoints (replicate 64 ''R'') 16 ! 14 = 61 \<and>
   moveCheckpoints (replicate 64 ''R'') 16 ! 7 = 30 \<and>
   sorted (moveCheckpoints (replicate 64 ''R'') 16)"
proof -
  let ?sol = "replicate 64 ''R''"
  have h: "(3::nat) \<le> 16" "(16::nat) < 2 ^ 32" "length ?sol < 2 ^ 32" by simp_all
  have ne: "?sol \<noteq> []" by simp
  note t = moveCheckpoints_table [OF h, THEN conjunct2, THEN mp, OF ne]
  have len: "int (length ?sol) = 64" by simp
  have c0: "length (moveCheckpoints ?sol 16) = 16"
    using t by (rule conjunct1)
  have c1: "moveCheckpoints ?sol 16 ! 0 = 0"
    using t by blast
  have c2: "moveCheckpoints ?sol 16 ! (16 - 1) = int (length ?sol)"
    using t by blast
  have c3: "moveCheckpoints ?sol 16 ! (16 - 2) = max 0 (int (length ?sol) - 3)"
    using t by blast
  have c4: "1 \<le> (7::nat) \<and> (7::nat) \<le> 16 - 3 \<longrightarrow> moveCheckpoints ?sol 16 ! 7 =
      round (double_of (real 7 *
        double_of (real_of_int (max 0 (int (length ?sol) - 3)) / real (16 - 2))))"
    using t by blast
  have c5: "sorted (moveCheckpoints ?sol 16)"
    using t by blast
  have "moveCheckpoints ?sol 16 ! 7 =
      round (double_of (real 7 *
        double_of (real_of_int (max 0 (int (length ?sol) - 3)) / real (16 - 2))))"
    using c4 by simp
  also have "\<dots> = round (double_of (7 * double_of (61 / 14)))"
    unfolding len by simp
  also have "\<dots> = 30"
    by (simp add: product_7_61_14 round_def)
  finally have i7: "moveCheckpoints ?sol 16 ! 7 = 30" .
  from c2 have i15: "moveCheckpoints ?sol 16 ! 15 = 64" by simp
  from c3 have i14: "moveCheckpoints ?sol 16 ! 14 = 61" by simp
  show ?thesis
    using c0 c1 i15 i14 i7 c5 by blast
qed

lemma replicate_two: "replicate 2 (0::int) = [0, 0]"
  by (simp add: numeral_2_eq_2)

lemma moveCheckpoints_two_general:
  "solutionMoves \<noteq> [] \<Longrightarrow>
   moveCheckpoints solutionMoves 2 =
     [max 0 (int (length solutionMoves) - 3), int (length solutionMoves)]"
  by (simp add: moveCheckpoints_def array_set_def replicate_two Let_def)


text \<open>
  Claim C4, as amended. With two milestones, an empty scramble gives the empty table, and a
  scramble of one to three moves gives exactly \<open>[0, T]\<close>.
\<close>

theorem two_milestone_table:
  "(solutionMoves = [] \<longrightarrow> moveCheckpoints solutionMoves 2 = []) \<and>
   (solutionMoves \<noteq> [] \<and> length solutionMoves \<le> 3 \<longrightarrow>
      moveCheckpoints solutionMoves 2 = [0, int (length solutionMoves)])"
proof (intro conjI impI)
  assume "solutionMoves = []"
  then show "moveCheckpoints solutionMoves 2 = []"
    by (simp add: moveCheckpoints_def)
next
  assume a: "solutionMoves \<noteq> [] \<and> length solutionMoves \<le> 3"
  then have "max 0 (int (length solutionMoves) - 3) = 0" by simp
  with a show "moveCheckpoints solutionMoves 2 = [0, int (length solutionMoves)]"
    by (simp add: moveCheckpoints_two_general)
qed

theorem two_milestone_table_witness:
  "moveCheckpoints [''R'', ''U''] 2 = [0, 2]"
  using two_milestone_table [of "[''R'', ''U'']"] by simp

text \<open>The claim as stated includes \<open>T = 0\<close>, where the table is empty and not \<open>[0, 0]\<close>.\<close>

theorem two_milestone_table_counterexample:
  "moveCheckpoints [] 2 \<noteq> [0, int (length ([] :: move list))]"
  by (simp add: moveCheckpoints_def)

text \<open>
  With two milestones and more than three moves, the write to index \<open>n - 2 = 0\<close> replaces
  the 0 written for the start milestone.
\<close>

lemma moveCheckpoints_two_of_five:
  "moveCheckpoints [''R'', ''U'', ''F'', ''D'', ''L''] 2 = [2, 5]"
  by (simp add: moveCheckpoints_two_general)


section \<open>The transition planner\<close>







text \<open>
  With a single milestone, which lies outside the specification's domain, index 0 is both the
  last and the first milestone: the reset case is tested first.
\<close>

lemma getMovesForTransition_single_milestone:
  "fst (getMovesForTransition [''R''] 1 0 0) = [invertMove ''R'']"
  by (simp add: getMovesForTransition_def)


section \<open>Moves on the cube\<close>

lemma round_minus_one: "round (- 1 :: real) = - 1"
  by (simp add: round_def)

lemma position_snap: "position (snap c) = snap_position (position c)"
  by (simp add: snap_def)

lemma position_finish_piece:
  "position (finish_piece euler a index angle c) = turn_position a index angle (position c)"
  by (simp add: finish_piece_def turn_position_def selected_def position_snap attach_turned_def)

lemma positions_perform:
  "map position (cubies (perform euler act s)) = map (action_position act) (map position (cubies s))"
  by (cases act) (simp_all add: rotateSlice_finish_def position_finish_piece)

lemma positions_actions:
  "map position (cubies (foldl (\<lambda>s act. perform euler act s) s acts)) =
     map (\<lambda>p. foldl (\<lambda>p act. action_position act p) p acts) (map position (cubies s))"
proof (induction acts arbitrary: s)
  case Nil
  then show ?case by simp
next
  case (Cons act acts)
  show ?case
    by (simp add: Cons.IH positions_perform del: perform.simps)
qed

lemma applyMove_positions_duration:
  "foldl (\<lambda>p act. action_position act p) p (applyMove m d) =
   foldl (\<lambda>p act. action_position act p) p (applyMove m 0)"
  by (cases "move_slice m") (simp add: applyMove_def Let_def)

lemma positions_run_moves:
  "map position (cubies (run_moves euler d moves s)) =
     map (moves_position moves) (map position (cubies s))"
proof (induction moves arbitrary: s)
  case Nil
  then show ?case by (simp add: run_moves_def moves_position_def)
next
  case (Cons m moves)
  have "map position (cubies (run_moves euler d (m # moves) s)) =
      map position (cubies (run_moves euler d moves
        (foldl (\<lambda>s act. perform euler act s) s (applyMove m d))))"
    by (simp add: run_moves_def)
  also have "\<dots> = map (moves_position moves)
      (map position (cubies (foldl (\<lambda>s act. perform euler act s) s (applyMove m d))))"
    by (rule Cons.IH)
  also have "\<dots> = map (moves_position (m # moves)) (map position (cubies s))"
    by (simp add: positions_actions applyMove_positions_duration [of _ m d] moves_position_def)
  finally show ?case .
qed

lemma positions_replay:
  "map position (replay euler moves) = map (moves_position moves) initialPositions"
  by (simp add: replay_def positions_run_moves initial_cubies_def comp_def)

lemma logical_actions:
  "logicalCube (foldl (\<lambda>s act. perform euler act s) s (applyMove m d)) = logicalCube s @ [m]"
  by (cases "move_slice m") (simp add: applyMove_def Let_def)

lemma logical_run_moves:
  "logicalCube (run_moves euler d moves s) = logicalCube s @ moves"
proof (induction moves arbitrary: s)
  case Nil
  then show ?case by (simp add: run_moves_def)
next
  case (Cons m moves)
  have "run_moves euler d (m # moves) s =
      run_moves euler d moves (foldl (\<lambda>s act. perform euler act s) s (applyMove m d))"
    by (simp add: run_moves_def)
  then show ?case
    by (simp add: Cons.IH logical_actions)
qed

lemma logical_sync_loop:
  "logicalCube (foldl (\<lambda>s m. s\<lparr>logicalCube := logicalCube s @ [m]\<rparr>) s moves) = logicalCube s @ moves"
  by (induction moves arbitrary: s) simp_all

lemma cubies_sync_loop:
  "cubies (foldl (\<lambda>s m. s\<lparr>logicalCube := logicalCube s @ [m]\<rparr>) s moves) = cubies s"
  by (induction moves arbitrary: s) simp_all

lemma run_moves_append:
  "run_moves euler d (xs @ ys) s = run_moves euler d ys (run_moves euler d xs s)"
  by (simp add: run_moves_def)

lemma cubies_actions_cong:
  "cubies s = cubies t \<Longrightarrow>
   cubies (foldl (\<lambda>s act. perform euler act s) s acts) =
   cubies (foldl (\<lambda>s act. perform euler act s) t acts)"
proof (induction acts arbitrary: s t)
  case Nil
  then show ?case by simp
next
  case (Cons act acts)
  have "cubies (perform euler act s) = cubies (perform euler act t)"
    using Cons.prems by (cases act) simp_all
  then have "cubies (foldl (\<lambda>s act. perform euler act s) (perform euler act s) acts) =
      cubies (foldl (\<lambda>s act. perform euler act s) (perform euler act t) acts)"
    by (rule Cons.IH)
  then show ?case
    by (simp only: foldl_Cons)
qed

lemma cubies_run_moves_cong:
  "cubies s = cubies t \<Longrightarrow> cubies (run_moves euler d moves s) = cubies (run_moves euler d moves t)"
proof (induction moves arbitrary: s t)
  case Nil
  then show ?case by (simp add: run_moves_def)
next
  case (Cons m moves)
  have step: "run_moves euler d (m # moves) u =
      run_moves euler d moves (foldl (\<lambda>s act. perform euler act s) u (applyMove m d))" for u
    by (simp add: run_moves_def)
  show ?case
    unfolding step
    by (rule Cons.IH) (rule cubies_actions_cong [OF Cons.prems])
qed

lemma resetToStep_logical:
  "logicalCube (resetToStep euler solutionMoves n k s) =
     (map invertMove (rev solutionMoves) @ getMovesToReachStep solutionMoves n k) @
     (map invertMove (rev solutionMoves) @ getMovesToReachStep solutionMoves n k)"
  by (simp add: resetToStep_def Let_def logical_sync_loop logical_run_moves)

lemma resetToStep_cubies:
  "cubies (resetToStep euler solutionMoves n k s) =
     replay euler (map invertMove (rev solutionMoves) @ getMovesToReachStep solutionMoves n k)"
  unfolding resetToStep_def Let_def replay_def cubies_sync_loop run_moves_append
  by (intro cubies_run_moves_cong) simp

lemma turn_position_quarter:
  "turn_position a index (pi / 2) (x, y, z) =
     (if \<bar>coord a (x, y, z) - index\<bar> < 1 / 10
      then snap_position (case a of X \<Rightarrow> (x, - z, y) | Y \<Rightarrow> (z, y, - x) | Z \<Rightarrow> (- y, x, z))
      else (x, y, z))"
  "turn_position a index (- (pi / 2)) (x, y, z) =
     (if \<bar>coord a (x, y, z) - index\<bar> < 1 / 10
      then snap_position (case a of X \<Rightarrow> (x, z, - y) | Y \<Rightarrow> (- z, y, x) | Z \<Rightarrow> (y, - x, z))
      else (x, y, z))"
  by (cases a; simp add: turn_position_def rotate_point_def)+

lemma applyMove_tokens:
  "applyMove ''R'' d = [LogicalMove ''R'', RotateSlice X 1 (- 1) d]"
  "applyMove ''U'' d = [LogicalMove ''U'', RotateSlice Y 1 (- 1) d]"
  "applyMove ''F'' d = [LogicalMove ''F'', RotateSlice Z 1 (- 1) d]"
  "applyMove ''D'' d = [LogicalMove ''D'', RotateSlice Y (- 1) 1 d]"
  "applyMove (invertMove ''R'') d = [LogicalMove (invertMove ''R''), RotateSlice X 1 1 d]"
  "applyMove (invertMove ''U'') d = [LogicalMove (invertMove ''U''), RotateSlice Y 1 1 d]"
  "applyMove (invertMove ''F'') d = [LogicalMove (invertMove ''F''), RotateSlice Z 1 1 d]"
  "applyMove (invertMove ''D'') d = [LogicalMove (invertMove ''D''), RotateSlice Y (- 1) (- 1) d]"
  by (simp_all add: applyMove_def move_slice_def invertMove_def prime_char_def double_char_def)

lemma corner_after_one_inverse_turn:
  "moves_position [invertMove ''R''] (1, 1, 1) = (1, - 1, 1)"
  by (simp add: moves_position_def applyMove_tokens
      turn_position_quarter coord_def snap_position_def round_minus_one)

lemma corner_after_two_inverse_turns:
  "moves_position [invertMove ''R'', invertMove ''R''] (1, 1, 1) = (1, - 1, - 1)"
  by (simp add: moves_position_def applyMove_tokens
      turn_position_quarter coord_def snap_position_def round_minus_one)

lemma corner_after_round_trip:
  "moves_position [''U'', ''F'', ''D'', invertMove ''D'', invertMove ''F'', invertMove ''U'',
      invertMove ''R''] (1, 1, 1) = (1, - 1, 1)"
  by (simp add: moves_position_def applyMove_tokens
      turn_position_quarter coord_def snap_position_def round_minus_one)

lemma initialPositions_last: "initialPositions ! 26 = (1, 1, 1)" "length initialPositions = 27"
  by (simp_all add: initialPositions_def)

lemma replay_corner:
  "position (replay euler moves ! 26) = moves_position moves (1, 1, 1)"
proof -
  have "length (replay euler moves) = 27"
    using arg_cong [OF positions_replay [of euler moves], of length]
    by (simp add: initialPositions_last)
  then have "position (replay euler moves ! 26) = map position (replay euler moves) ! 26"
    by simp
  also have "\<dots> = moves_position moves (1, 1, 1)"
    by (simp add: positions_replay initialPositions_last)
  finally show ?thesis .
qed

lemma reach_step_three_of_one_move:
  "getMovesToReachStep [''R''] 5 3 = []"
  by (simp add: getMovesToReachStep_def moveCheckpoints_length moveCheckpoints_nth js_slice_def)

text \<open>
  Claim C1, at the input \<open>solutionMoves = [R]\<close>, five milestones, \<open>resetToStep(3)\<close>.
  The pieces are those of the reverse scramble followed by the first \<open>checkpoints[3] = 0\<close>
  moves, applied once. The logical cube has received the same moves twice: once inside each
  \<open>applyMove\<close>, once more in the two loops after them. Replaying the logical cube's moves
  puts the corner piece of index 26 at \<open>(1, -1, -1)\<close>, while the visual cube has it at
  \<open>(1, -1, 1)\<close>.
\<close>

theorem resetToStep_logical_applied_twice:
  "logicalCube (resetToStep euler [''R''] 5 3 s) = [invertMove ''R'', invertMove ''R''] \<and>
   cubies (resetToStep euler [''R''] 5 3 s) = replay euler [invertMove ''R''] \<and>
   position (replay euler (logicalCube (resetToStep euler [''R''] 5 3 s)) ! 26) = (1, - 1, - 1) \<and>
   position (cubies (resetToStep euler [''R''] 5 3 s) ! 26) = (1, - 1, 1)"
  by (simp add: resetToStep_logical resetToStep_cubies reach_step_three_of_one_move
      replay_corner corner_after_one_inverse_turn corner_after_two_inverse_turns)

text \<open>
  With at least three milestones the table starts at 0, and the plan back from \<open>j\<close> to
  \<open>i\<close> is the plan from \<open>i\<close> to \<open>j\<close> reversed, each move inverted. On the face tokens
  \<open>invertMove\<close> is an involution that fixes the double turns.
\<close>

lemma backward_plan_reverses_forward_plan:
  assumes "solutionMoves \<noteq> []" "3 \<le> n" "i \<le> j" "j < n"
  shows "fst (getMovesForTransition solutionMoves n j i) =
    map invertMove (rev (fst (getMovesForTransition solutionMoves n i j)))"
proof (cases "i = j")
  case True
  have "\<not> (int j = int n - 1 \<and> j = 0)"
    using assms(2) by auto
  with True assms(1) show ?thesis
    by (auto simp: getMovesForTransition_def Let_def)
next
  case False
  then have lt: "i < j" using assms(3) by simp
  let ?cp = "moveCheckpoints solutionMoves n"
  have len: "length ?cp = n"
    using assms(1,2) by (rule moveCheckpoints_length)
  have fwd: "fst (getMovesForTransition solutionMoves n i j) =
      js_slice solutionMoves (?cp ! i) (?cp ! j)"
    using assms lt len by (auto simp: getMovesForTransition_def Let_def nth_or_zero_def)
  show ?thesis
  proof (cases "j = n - 1 \<and> i = 0")
    case True
    then have "?cp ! i = 0" "?cp ! j = int (length solutionMoves)"
      using assms by (simp_all add: moveCheckpoints_nth)
    then have "js_slice solutionMoves (?cp ! i) (?cp ! j) = solutionMoves"
      by (simp add: js_slice_def)
    moreover have "fst (getMovesForTransition solutionMoves n j i) =
        map invertMove (rev solutionMoves)"
      using True assms by (auto simp: getMovesForTransition_def)
    ultimately show ?thesis
      by (simp add: fwd)
  next
    case False
    then have "\<not> (int j = int n - 1 \<and> i = 0)"
      using assms by auto
    then have "fst (getMovesForTransition solutionMoves n j i) =
        map invertMove (rev (js_slice solutionMoves (?cp ! i) (?cp ! j)))"
      using assms lt len by (auto simp: getMovesForTransition_def Let_def nth_or_zero_def)
    then show ?thesis
      by (simp add: fwd)
  qed
qed

lemma invertMove_involution:
  assumes "face \<in> set ''UDLRFB''"
  shows "invertMove (invertMove [face]) = [face]"
    "invertMove (invertMove [face, prime_char]) = [face, prime_char]"
    "invertMove (invertMove [face, double_char]) = [face, double_char]"
    "invertMove [face, double_char] = [face, double_char]"
  using assms by (auto simp: invertMove_def prime_char_def double_char_def)

lemma two_milestone_plans:
  "fst (getMovesForTransition [''R'', ''U'', ''F'', ''D''] 2 0 1) = [''U'', ''F'', ''D'']"
  "fst (getMovesForTransition [''R'', ''U'', ''F'', ''D''] 2 1 0) =
     [invertMove ''D'', invertMove ''F'', invertMove ''U'', invertMove ''R'']"
  by (simp_all add: getMovesForTransition_def moveCheckpoints_two_general nth_or_zero_def
      js_slice_def)

text \<open>
  Claim C3, at two milestones and the scramble \<open>[R, U, F, D]\<close>. The table is \<open>[1, 4]\<close>,
  so the plan from 0 to 1 plays the last three moves, and the plan from 1 to 0 is the reset
  case, which undoes all four. After both the corner piece of index 26 is at \<open>(1, -1, 1)\<close>
  and not at its place \<open>(1, 1, 1)\<close> in the cube that has not moved.
\<close>

theorem round_trip_two_milestones_not_identity:
  "fst (getMovesForTransition [''R'', ''U'', ''F'', ''D''] 2 0 1) = [''U'', ''F'', ''D''] \<and>
   fst (getMovesForTransition [''R'', ''U'', ''F'', ''D''] 2 1 0) =
     [invertMove ''D'', invertMove ''F'', invertMove ''U'', invertMove ''R''] \<and>
   position (replay euler (fst (getMovesForTransition [''R'', ''U'', ''F'', ''D''] 2 0 1) @
       fst (getMovesForTransition [''R'', ''U'', ''F'', ''D''] 2 1 0)) ! 26) = (1, - 1, 1) \<and>
   position (replay euler [] ! 26) = (1, 1, 1)"
  unfolding two_milestone_plans replay_corner
  by (simp add: corner_after_round_trip) (simp add: moves_position_def)

lemma applyMove_double:
  "double_char \<in> set move \<Longrightarrow>
   applyMove move d =
     (case move_slice move of (a, index, direction) \<Rightarrow>
        [LogicalMove move, RotateSlice a index direction d, RotateSlice a index direction d])"
  by (cases "move_slice move") (simp add: applyMove_def)

lemma applyMove_single:
  "double_char \<notin> set move \<Longrightarrow>
   applyMove move d =
     (case move_slice move of (a, index, direction) \<Rightarrow>
        [LogicalMove move, RotateSlice a index direction d])"
  by (cases "move_slice move") (simp add: applyMove_def)

lemma move_milliseconds_double:
  "double_char \<in> set move \<Longrightarrow> move_milliseconds move d = 2 * (1000 * d)"
  by (cases "move_slice move") (simp add: move_milliseconds_def applyMove_double)

lemma move_milliseconds_single:
  "double_char \<notin> set move \<Longrightarrow> move_milliseconds move d = 1000 * d"
  by (cases "move_slice move") (simp add: move_milliseconds_def applyMove_single)



text \<open>
  An animated rotation is resolved by the first frame at least \<open>duration\<close> seconds after
  its start, and by no earlier frame.
\<close>

lemma animate_snd_Cons:
  "snd (animate duration startTime startRot targetRot (time # frames)) =
     (if (time - startTime) / 1000 / duration < 1
      then snd (animate duration startTime startRot targetRot frames) else True)"
  by (simp add: Let_def split: prod.splits)

lemma frame_before_end:
  assumes "0 < (duration::real)"
  shows "((time - startTime) / 1000 / duration < 1) = (time - startTime < 1000 * duration)"
  using assms by (simp add: field_simps)

lemma animate_resolved_iff:
  assumes "0 < duration"
  shows "snd (animate duration startTime startRot targetRot frames) =
     (\<exists>time \<in> set frames. 1000 * duration \<le> time - startTime)"
proof (induction frames)
  case Nil
  show ?case by simp
next
  case (Cons time frames)
  show ?case
    unfolding animate_snd_Cons frame_before_end [OF assms] Cons.IH
    by auto
qed

text \<open>
  Claim C9, at the token \<open>U2\<close> that the shuffling loop can draw and animates at 0.3 s per
  rotation. Its two rotations take 600 ms, which is not less than \<open>JUMP_DURATION\<close>.
\<close>

theorem shuffle_double_turn_reaches_jump_duration:
  "shuffle_move 0 2 = ''U2'' \<and>
   move_milliseconds (shuffle_move 0 2) (3 / 10) = 600 \<and>
   \<not> move_milliseconds (shuffle_move 0 2) (3 / 10) < JUMP_DURATION"
proof -
  have "shuffle_move 0 2 = ''U2''" by (simp add: shuffle_move_def)
  moreover have "double_char \<in> set ''U2''" by (simp add: double_char_def)
  ultimately show ?thesis
    by (simp add: move_milliseconds_double JUMP_DURATION_def)
qed

text \<open>At the 0.25 s that \<open>processQueue\<close> assigns, every move is shorter than the jump.\<close>

lemma queue_move_shorter_than_jump:
  "move_milliseconds move (25 / 100) < JUMP_DURATION"
  by (cases "double_char \<in> set move")
    (simp_all add: move_milliseconds_double move_milliseconds_single JUMP_DURATION_def)

lemma snap_angle_multiple: "\<exists>k::int. snap_angle r = of_int k * (pi / 2)"
  unfolding snap_angle_def by blast

lemma grid_aligned_snap: "grid_aligned (snap c)"
proof -
  obtain x y z where p: "position c = (x, y, z)" by (cases "position c")
  obtain rx ry rz where r: "rotation c = (rx, ry, rz)" by (cases "rotation c")
  have "position (snap c) = (of_int (round x), of_int (round y), of_int (round z))"
    by (simp add: snap_def p snap_position_def)
  moreover have "rotation (snap c) = (snap_angle rx, snap_angle ry, snap_angle rz)"
    by (simp add: snap_def r snap_rotation_def)
  ultimately show ?thesis
    unfolding grid_aligned_def
    using snap_angle_multiple [of rx] snap_angle_multiple [of ry] snap_angle_multiple [of rz]
    by (simp only: prod.case Ints_of_int)
qed

lemma finish_piece_cases:
  "(selected a index c \<longrightarrow> grid_aligned (finish_piece euler a index angle c)) \<and>
   (\<not> selected a index c \<longrightarrow> finish_piece euler a index angle c = c)"
  by (simp add: finish_piece_def grid_aligned_snap)

lemma rotateSlice_result:
  assumes "rotateSlice euler a index direction duration startTime frames cs = Some cs'"
  shows "cs' = rotateSlice_finish euler a index (direction * pi / 2) cs"
  using assms by (simp add: rotateSlice_def Let_def split: if_splits)

text \<open>
  Claim C8. Whenever \<open>rotateSlice\<close> has completed (at once for duration 0, or when its
  promise is resolved), every selected piece is grid-aligned: its coordinates are integers and
  its Euler angles are integer multiples of a quarter turn; the other pieces are unchanged. The
  state at resolution is the snapped state, so the promise resolves only after the snapping.
  Numbers are exact reals here; the rounding of the floating-point product is not represented.
\<close>

theorem rotateSlice_snaps:
  assumes "rotateSlice euler a index direction duration startTime frames cs = Some cs'"
  shows "length cs' = length cs \<and>
    (\<forall>i < length cs.
       (selected a index (cs ! i) \<longrightarrow> grid_aligned (cs' ! i)) \<and>
       (\<not> selected a index (cs ! i) \<longrightarrow> cs' ! i = cs ! i))"
  unfolding rotateSlice_result [OF assms] rotateSlice_finish_def
  by (simp add: finish_piece_cases)

lemma rotateSlice_resolves:
  "rotateSlice euler a index direction 0 startTime frames cs \<noteq> None"
  "0 < duration \<Longrightarrow> \<exists>time \<in> set frames. 1000 * duration \<le> time - startTime \<Longrightarrow>
   rotateSlice euler a index direction duration startTime frames cs \<noteq> None"
  "0 < duration \<Longrightarrow> \<forall>time \<in> set frames. time - startTime < 1000 * duration \<Longrightarrow>
   rotateSlice euler a index direction duration startTime frames cs = None"
  by (auto simp: rotateSlice_def Let_def animate_resolved_iff)

theorem rotateSlice_snaps_witness:
  "rotateSlice (\<lambda>a angle c. (angle, 0, 0)) X 1 (- 1) (1 / 4) 0 [100, 250]
     [\<lparr>position = (1, 1 / 50, - 1), rotation = (0, 0, 0)\<rparr>,
      \<lparr>position = (0, 1, - 1), rotation = (0, 0, 0)\<rparr>] =
   Some [\<lparr>position = (1, - 1, 0), rotation = (- (pi / 2), 0, 0)\<rparr>,
      \<lparr>position = (0, 1, - 1), rotation = (0, 0, 0)\<rparr>] \<and>
   grid_aligned \<lparr>position = (1, - 1, 0), rotation = (- (pi / 2), 0, 0)\<rparr>"
proof -
  let ?e = "\<lambda>(a::axis) (angle::real) (c::cubie). (angle, 0::real, 0::real)"
  let ?c0 = "\<lparr>position = (1, 1 / 50, - 1), rotation = (0, 0, 0)\<rparr>"
  let ?c1 = "\<lparr>position = (0, 1, - 1), rotation = (0, 0, 0)\<rparr>"
  let ?d0 = "\<lparr>position = (1, - 1, 0), rotation = (- (pi / 2), 0, 0)\<rparr>"
  have r: "round (- (1 / 50) :: real) = 0" "round (- 1 :: real) = - 1"
    by (simp_all add: round_def)
  have h: "rotateSlice ?e X 1 (- 1) (1 / 4) 0 [100, 250] [?c0, ?c1] = Some [?d0, ?c1]"
    by (simp add: rotateSlice_def rotateSlice_finish_def finish_piece_def selected_def coord_def
        attach_turned_def rotate_point_def snap_def snap_position_def snap_rotation_def
        snap_angle_def r Let_def)
  have sel: "selected X 1 ([?c0, ?c1] ! 0)"
    by (simp add: selected_def coord_def)
  have "grid_aligned ([?d0, ?c1] ! 0)"
    using rotateSlice_snaps [OF h, THEN conjunct2, rule_format, of 0] sel by simp
  with h show ?thesis by simp
qed

section \<open>Navigation\<close>

text \<open>
  Claim C7, as amended. On every arrival at the final milestone from a milestone other than
  the one before it, \<open>handleStepChange\<close> replaces the queue by a single transition that
  carries the moves which \<open>solve\<close> computes from the logical cube as it is, and then calls
  \<open>processQueue\<close>. On leaving the final milestone for a milestone before the previous one
  there is no dynamic solve: the queue is kept and the ordinary transitions without explicit
  moves are appended, one reset transition for target 0 and one per step otherwise.
\<close>

theorem navigation_to_and_from_final:
  "(int targetStep = int n - 1 \<and> targetStep \<noteq> lastQueuedStep s \<and>
      int (lastQueuedStep s) \<noteq> int n - 2 \<longrightarrow>
      queueStepChange solve n targetStep s =
        (s\<lparr>animationQueue :=
             [\<lparr>t_from = lastQueuedStep s, t_to = targetStep,
               t_moves = Some (solve_tokens (solve (logicalCube (cubeState s))))\<rparr>],
           abortProcessing := False,
           lastQueuedStep := targetStep\<rparr>, True)) \<and>
   (int (lastQueuedStep s) = int n - 1 \<and> int targetStep < int n - 2 \<longrightarrow>
      queueStepChange solve n targetStep s =
        (s\<lparr>abortProcessing := False,
           animationQueue := animationQueue s @
             (if targetStep = 0
              then [\<lparr>t_from = lastQueuedStep s, t_to = 0, t_moves = None\<rparr>]
              else map (\<lambda>k. \<lparr>t_from = k + 1, t_to = k, t_moves = None\<rparr>)
                     (rev [targetStep ..< lastQueuedStep s])),
           lastQueuedStep := targetStep\<rparr>, True))"
  by (auto simp: queueStepChange_def Let_def)

theorem navigation_to_and_from_final_witness:
  "animationQueue (fst (queueStepChange (\<lambda>h. ''R U'') 5 4
       (at_rest 0 \<lparr>logicalCube = [], cubies = initial_cubies\<rparr>))) =
     [\<lparr>t_from = 0, t_to = 4, t_moves = Some [''R'', ''U'']\<rparr>] \<and>
   animationQueue (fst (queueStepChange (\<lambda>h. ''R U'') 5 0
       (at_rest 4 \<lparr>logicalCube = [], cubies = initial_cubies\<rparr>))) =
     [\<lparr>t_from = 4, t_to = 0, t_moves = None\<rparr>]"
  using navigation_to_and_from_final [of 4 5 "at_rest 0 \<lparr>logicalCube = [], cubies = initial_cubies\<rparr>" "\<lambda>h. ''R U''"]
    navigation_to_and_from_final [of 0 5 "at_rest 4 \<lparr>logicalCube = [], cubies = initial_cubies\<rparr>" "\<lambda>h. ''R U''"]
  by (simp add: at_rest_def solve_tokens_def trim_def is_space_def)

text \<open>
  From the final milestone 4 of five to milestone 2: two ordinary backward transitions are
  queued, with no explicit move list.
\<close>

theorem leaving_final_counterexample:
  "animationQueue (fst (queueStepChange (\<lambda>h. ''R U'') 5 2
       (at_rest 4 \<lparr>logicalCube = [], cubies = initial_cubies\<rparr>))) =
     [\<lparr>t_from = 4, t_to = 3, t_moves = None\<rparr>, \<lparr>t_from = 3, t_to = 2, t_moves = None\<rparr>]"
  by (simp add: queueStepChange_def at_rest_def upt_rec [of 2 4] upt_rec [of 3 4])

section \<open>Cancellation of the processing pass\<close>

lemma for_moves_aborted:
  "abortProcessing s \<Longrightarrow> for_moves euler d to moves s = s\<lparr>running := None\<rparr>"
  by (cases moves) simp_all

lemma resume_next_rotation:
  assumes "running s = Some p" "pending p = r # rest" "is_rotation r"
  shows "resume euler sol n s =
    s\<lparr>cubeState := perform euler (in_flight p) (cubeState s),
      running := Some (p\<lparr>in_flight := r, pending := rest\<rparr>)\<rparr>"
  using assms by (cases r) (simp_all add: resume_def)

lemma resume_last_rotation_cancelled:
  assumes "running s = Some p" "pending p = []" "abortProcessing s" "animationQueue s = []"
  shows "resume euler sol n s =
    s\<lparr>cubeState := perform euler (in_flight p) (cubeState s),
      running := None, currentAnimatedStep := pass_to p,
      animationQueue := [], isProcessingQueue := False, isSolving := False\<rparr>"
  using assms by (simp add: resume_def for_moves_aborted)

lemma resume_not_running: "running s = None \<Longrightarrow> resume euler sol n s = s"
  by (simp add: resume_def)

lemma perform_rotation_logical:
  "is_rotation a \<Longrightarrow> logicalCube (perform euler a c) = logicalCube c"
  by (cases a) simp_all

lemma cancelled_move_finishes:
  assumes "running s = Some p" "list_all is_rotation (pending p)"
    "abortProcessing s" "animationQueue s = []"
  shows "(resume euler sol n ^^ Suc (length (pending p))) s =
    s\<lparr>cubeState := foldl (\<lambda>c a. perform euler a c) (cubeState s) (in_flight p # pending p),
      running := None, currentAnimatedStep := pass_to p,
      animationQueue := [], isProcessingQueue := False, isSolving := False\<rparr>"
  using assms
proof (induction "pending p" arbitrary: s p)
  case Nil
  then have pe: "pending p = []" by simp
  show ?case
    using Nil.prems(1,3,4) pe
    by (simp add: resume_last_rotation_cancelled)
next
  case (Cons r rest)
  then have pe: "pending p = r # rest" by simp
  with Cons.prems(2) have rot: "is_rotation r" "list_all is_rotation rest" by simp_all
  let ?s1 = "s\<lparr>cubeState := perform euler (in_flight p) (cubeState s),
      running := Some (p\<lparr>in_flight := r, pending := rest\<rparr>)\<rparr>"
  let ?p1 = "p\<lparr>in_flight := r, pending := rest\<rparr>"
  have step: "resume euler sol n s = ?s1"
    using Cons.prems(1) pe rot(1) by (rule resume_next_rotation)
  have ih: "(resume euler sol n ^^ Suc (length (pending ?p1))) ?s1 =
      ?s1\<lparr>cubeState := foldl (\<lambda>c a. perform euler a c) (cubeState ?s1) (in_flight ?p1 # pending ?p1),
        running := None, currentAnimatedStep := pass_to ?p1,
        animationQueue := [], isProcessingQueue := False, isSolving := False\<rparr>"
    using Cons.prems(3,4) rot(2) by (intro Cons.hyps(1)) simp_all
  have "(resume euler sol n ^^ Suc (length (pending p))) s =
      (resume euler sol n ^^ Suc (length rest)) (resume euler sol n s)"
    unfolding pe by (simp add: funpow_swap1)
  also have "\<dots> = (resume euler sol n ^^ Suc (length (pending ?p1))) ?s1"
    unfolding step by simp
  also note ih
  finally show ?case
    by (simp add: pe)
qed

lemma cancelled_move_in_progress:
  assumes "running s = Some p" "list_all is_rotation (pending p)" "j \<le> length (pending p)"
  shows "(resume euler sol n ^^ j) s =
    s\<lparr>cubeState := foldl (\<lambda>c a. perform euler a c) (cubeState s) (take j (in_flight p # pending p)),
      running := Some (p\<lparr>in_flight := (in_flight p # pending p) ! j,
        pending := drop j (pending p)\<rparr>)\<rparr>"
  using assms
proof (induction j arbitrary: s p)
  case 0
  then show ?case by simp
next
  case (Suc j)
  then obtain r rest where pe: "pending p = r # rest" by (cases "pending p") auto
  with Suc.prems(2) have rot: "is_rotation r" "list_all is_rotation rest" by simp_all
  let ?p1 = "p\<lparr>in_flight := r, pending := rest\<rparr>"
  let ?s1 = "s\<lparr>cubeState := perform euler (in_flight p) (cubeState s), running := Some ?p1\<rparr>"
  have step: "resume euler sol n s = ?s1"
    using Suc.prems(1) pe rot(1) by (rule resume_next_rotation)
  have j: "j \<le> length (pending ?p1)" using Suc.prems(3) pe by simp
  have ih: "(resume euler sol n ^^ j) ?s1 =
    ?s1\<lparr>cubeState := foldl (\<lambda>c a. perform euler a c) (cubeState ?s1) (take j (in_flight ?p1 # pending ?p1)),
      running := Some (?p1\<lparr>in_flight := (in_flight ?p1 # pending ?p1) ! j,
        pending := drop j (pending ?p1)\<rparr>)\<rparr>"
    using rot(2) j by (intro Suc.IH) simp_all
  have "(resume euler sol n ^^ Suc j) s = (resume euler sol n ^^ j) (resume euler sol n s)"
    by (simp add: funpow_swap1)
  also have "\<dots> = (resume euler sol n ^^ j) ?s1"
    unfolding step by simp
  also note ih
  finally show ?case
    by (simp add: pe)
qed

lemma cancel_fields:
  "abortProcessing (cancel s)" "animationQueue (cancel s) = []"
  "running (cancel s) = running s" "cubeState (cancel s) = cubeState s"
  by (simp_all add: cancel_def)

lemma foldl_rotations_logical:
  "list_all is_rotation acts \<Longrightarrow>
   logicalCube (foldl (\<lambda>c a. perform euler a c) c acts) = logicalCube c"
  by (induction acts arbitrary: c) (simp_all add: perform_rotation_logical)

lemma funpow_fixed: "f x = x \<Longrightarrow> (f ^^ k) x = x"
  by (induction k) simp_all

lemma cancelled_progress:
  assumes "running s = Some p" "list_all is_rotation (pending p)" "j \<le> length (pending p)"
  shows "(resume euler sol n ^^ j) (cancel s) =
      (cancel s)\<lparr>cubeState := foldl (\<lambda>c a. perform euler a c) (cubeState s) (take j (in_flight p # pending p)),
        running := Some (p\<lparr>in_flight := (in_flight p # pending p) ! j, pending := drop j (pending p)\<rparr>)\<rparr>"
proof -
  have run: "running (cancel s) = Some p"
    using assms(1) by (simp add: cancel_fields)
  show ?thesis
    using cancelled_move_in_progress [OF run assms(2,3), of euler sol n]
    by (simp only: cancel_fields)
qed

lemma cancelled_finished:
  assumes "running s = Some p" "list_all is_rotation (pending p)"
  shows "(resume euler sol n ^^ Suc (length (pending p))) (cancel s) =
     s\<lparr>abortProcessing := True,
            cubeState := foldl (\<lambda>c a. perform euler a c) (cubeState s) (in_flight p # pending p),
            running := None, currentAnimatedStep := pass_to p,
            animationQueue := [], isProcessingQueue := False, isSolving := False\<rparr>"
proof -
  have run: "running (cancel s) = Some p"
    using assms(1) by (simp add: cancel_fields)
  have "(resume euler sol n ^^ Suc (length (pending p))) (cancel s) =
      (cancel s)\<lparr>cubeState := foldl (\<lambda>c a. perform euler a c) (cubeState (cancel s)) (in_flight p # pending p),
      running := None, currentAnimatedStep := pass_to p,
      animationQueue := [], isProcessingQueue := False, isSolving := False\<rparr>"
    using run assms(2) cancel_fields(1,2) by (rule cancelled_move_finishes)
  also have "\<dots> = s\<lparr>abortProcessing := True,
            cubeState := foldl (\<lambda>c a. perform euler a c) (cubeState s) (in_flight p # pending p),
            running := None, currentAnimatedStep := pass_to p,
            animationQueue := [], isProcessingQueue := False, isSolving := False\<rparr>"
    unfolding cancel_def by (simp del: foldl_Cons)
  finally show ?thesis .
qed

lemma cancelled_after:
  assumes "running s = Some p" "list_all is_rotation (pending p)" "length (pending p) < j"
  shows "(resume euler sol n ^^ j) (cancel s) =
     s\<lparr>abortProcessing := True,
            cubeState := foldl (\<lambda>c a. perform euler a c) (cubeState s) (in_flight p # pending p),
            running := None, currentAnimatedStep := pass_to p,
            animationQueue := [], isProcessingQueue := False, isSolving := False\<rparr>"
    (is "_ = ?done")
proof -
  let ?R = "resume euler sol n"
  have fixed: "?R ?done = ?done"
    by (rule resume_not_running) simp
  obtain k where j: "j = k + Suc (length (pending p))"
    using assms(3) less_iff_Suc_add [of "length (pending p)" j] by auto
  have "(?R ^^ j) (cancel s) = (?R ^^ k) ((?R ^^ Suc (length (pending p))) (cancel s))"
    unfolding j by (simp only: funpow_add o_apply)
  also have "\<dots> = (?R ^^ k) ?done"
    by (simp only: cancelled_finished [OF assms(1,2)])
  also have "\<dots> = ?done"
    using fixed by (rule funpow_fixed)
  finally show ?thesis .
qed

lemma cancelled_logical:
  assumes "running s = Some p" "is_rotation (in_flight p)" "list_all is_rotation (pending p)"
  shows "logicalCube (cubeState ((resume euler sol n ^^ j) (cancel s))) = logicalCube (cubeState s)"
proof (cases "j \<le> length (pending p)")
  case True
  have "list_all is_rotation (in_flight p # pending p)"
    using assms(2,3) by simp
  then have "list_all is_rotation (take j (in_flight p # pending p))"
    using set_take_subset [of j "in_flight p # pending p"]
    unfolding list_all_iff by blast
  then have "logicalCube (foldl (\<lambda>c a. perform euler a c) (cubeState s)
      (take j (in_flight p # pending p))) = logicalCube (cubeState s)"
    by (rule foldl_rotations_logical)
  then show ?thesis
    unfolding cancelled_progress [OF assms(1,3) True] by simp
next
  case False
  then have j: "length (pending p) < j" by simp
  have "list_all is_rotation (in_flight p # pending p)"
    using assms(2,3) by simp
  then have "logicalCube (foldl (\<lambda>c a. perform euler a c) (cubeState s)
      (in_flight p # pending p)) = logicalCube (cubeState s)"
    by (rule foldl_rotations_logical)
  then show ?thesis
    unfolding cancelled_after [OF assms(1,3) j] by simp
qed

lemma cancelled_fresh_pass:
  assumes "running s = Some p" "list_all is_rotation (pending p)" "length (pending p) < j"
  shows "processQueue euler sol n ((resume euler sol n ^^ j) (cancel s)\<lparr>animationQueue := t # queue\<rparr>) =
        while_queue euler sol n (t # queue)
          (s\<lparr>cubeState := foldl (\<lambda>c a. perform euler a c) (cubeState s) (in_flight p # pending p),
            running := None, currentAnimatedStep := pass_to p,
            animationQueue := t # queue, isProcessingQueue := True, isSolving := True,
            abortProcessing := False\<rparr>)"
  unfolding cancelled_after [OF assms] processQueue_def
  by (simp del: while_queue.simps foldl_Cons)

text \<open>
  Claim C6, as amended. Let a rotation be in flight when the flag is set and the queue is
  emptied. Then the rotations of the move in flight complete, one after the other (the
  second rotation of a double turn is started after the cancellation); once they have, the
  pass has ended with the processing flag cleared, whatever moves and transitions were left;
  the logical cube is never moved again by this pass, so no further move is started; and a
  later \<open>processQueue\<close> on a newly filled queue is a run of the loop over that queue alone.
\<close>

theorem cancel_stops_after_move_in_flight:
  assumes "running s = Some p" "is_rotation (in_flight p)" "list_all is_rotation (pending p)"
  shows
    "(\<forall>j \<le> length (pending p).
        running ((resume euler sol n ^^ j) (cancel s)) =
          Some (p\<lparr>in_flight := (in_flight p # pending p) ! j, pending := drop j (pending p)\<rparr>)) \<and>
     (\<forall>j > length (pending p).
        (resume euler sol n ^^ j) (cancel s) =
          s\<lparr>abortProcessing := True,
            cubeState := foldl (\<lambda>c a. perform euler a c) (cubeState s) (in_flight p # pending p),
            running := None, currentAnimatedStep := pass_to p,
            animationQueue := [], isProcessingQueue := False, isSolving := False\<rparr>) \<and>
     (\<forall>j. logicalCube (cubeState ((resume euler sol n ^^ j) (cancel s))) =
        logicalCube (cubeState s)) \<and>
     (\<forall>j > length (pending p). \<forall>t queue.
        processQueue euler sol n ((resume euler sol n ^^ j) (cancel s)\<lparr>animationQueue := t # queue\<rparr>) =
        while_queue euler sol n (t # queue)
          (s\<lparr>cubeState := foldl (\<lambda>c a. perform euler a c) (cubeState s) (in_flight p # pending p),
            running := None, currentAnimatedStep := pass_to p,
            animationQueue := t # queue, isProcessingQueue := True, isSolving := True,
            abortProcessing := False\<rparr>))"
proof (intro conjI allI impI)
  fix j
  assume j: "j \<le> length (pending p)"
  show "running ((resume euler sol n ^^ j) (cancel s)) =
      Some (p\<lparr>in_flight := (in_flight p # pending p) ! j, pending := drop j (pending p)\<rparr>)"
    unfolding cancelled_progress [OF assms(1,3) j] by simp
next
  fix j
  assume "length (pending p) < j"
  with assms(1,3) show "(resume euler sol n ^^ j) (cancel s) =
      s\<lparr>abortProcessing := True,
        cubeState := foldl (\<lambda>c a. perform euler a c) (cubeState s) (in_flight p # pending p),
        running := None, currentAnimatedStep := pass_to p,
        animationQueue := [], isProcessingQueue := False, isSolving := False\<rparr>"
    by (rule cancelled_after)
next
  fix j
  from assms show "logicalCube (cubeState ((resume euler sol n ^^ j) (cancel s))) =
      logicalCube (cubeState s)"
    by (rule cancelled_logical)
next
  fix j t queue
  assume "length (pending p) < j"
  with assms(1,3) show
    "processQueue euler sol n ((resume euler sol n ^^ j) (cancel s)\<lparr>animationQueue := t # queue\<rparr>) =
     while_queue euler sol n (t # queue)
       (s\<lparr>cubeState := foldl (\<lambda>c a. perform euler a c) (cubeState s) (in_flight p # pending p),
         running := None, currentAnimatedStep := pass_to p,
         animationQueue := t # queue, isProcessingQueue := True, isSolving := True,
         abortProcessing := False\<rparr>)"
    by (rule cancelled_fresh_pass)
qed

text \<open>
  A transition with the explicit moves \<open>[R2, U]\<close> is started and cancelled during the first
  rotation of \<open>R2\<close>. When that rotation resolves, the second rotation of \<open>R2\<close> is in flight:
  a rotation has been started after the cancellation.
\<close>

lemma double_turn_pass:
  "processQueue euler sol n
     ((at_rest 0 \<lparr>logicalCube = [], cubies = initial_cubies\<rparr>)
        \<lparr>animationQueue := [\<lparr>t_from = 0, t_to = 4, t_moves = Some [''R2'', ''U'']\<rparr>]\<rparr>) =
   (at_rest 0 \<lparr>logicalCube = [''R2''], cubies = initial_cubies\<rparr>)
     \<lparr>isProcessingQueue := True, isSolving := True,
      running := Some \<lparr>in_flight = RotateSlice X 1 (- 1) (25 / 100),
        pending = [RotateSlice X 1 (- 1) (25 / 100)], later_moves = [''U''],
        pass_duration = 25 / 100, pass_to = 4\<rparr>\<rparr>"
  by (simp add: processQueue_def at_rest_def applyMove_def move_slice_def
      prime_char_def double_char_def)

theorem second_rotation_after_cancel_counterexample:
  "running (resume (\<lambda>a angle c. (0, 0, 0)) [] 5 (cancel (processQueue (\<lambda>a angle c. (0, 0, 0)) [] 5
     ((at_rest 0 \<lparr>logicalCube = [], cubies = initial_cubies\<rparr>)
        \<lparr>animationQueue := [\<lparr>t_from = 0, t_to = 4, t_moves = Some [''R2'', ''U'']\<rparr>]\<rparr>)))) =
   Some \<lparr>in_flight = RotateSlice X 1 (- 1) (25 / 100), pending = [], later_moves = [''U''],
     pass_duration = 25 / 100, pass_to = 4\<rparr>"
  unfolding double_turn_pass
  by (simp add: resume_def cancel_def at_rest_def)

theorem cancel_stops_after_move_in_flight_witness:
  "running ((resume (\<lambda>a angle c. (0, 0, 0)) [] 5 ^^ 1) (cancel (processQueue (\<lambda>a angle c. (0, 0, 0)) [] 5
     ((at_rest 0 \<lparr>logicalCube = [], cubies = initial_cubies\<rparr>)
        \<lparr>animationQueue := [\<lparr>t_from = 0, t_to = 4, t_moves = Some [''R2'', ''U'']\<rparr>]\<rparr>)))) =
   Some \<lparr>in_flight = RotateSlice X 1 (- 1) (25 / 100), pending = [], later_moves = [''U''],
     pass_duration = 25 / 100, pass_to = 4\<rparr> \<and>
   isProcessingQueue ((resume (\<lambda>a angle c. (0, 0, 0)) [] 5 ^^ 2) (cancel (processQueue (\<lambda>a angle c. (0, 0, 0)) [] 5
     ((at_rest 0 \<lparr>logicalCube = [], cubies = initial_cubies\<rparr>)
        \<lparr>animationQueue := [\<lparr>t_from = 0, t_to = 4, t_moves = Some [''R2'', ''U'']\<rparr>]\<rparr>)))) = False \<and>
   running ((resume (\<lambda>a angle c. (0, 0, 0)) [] 5 ^^ 2) (cancel (processQueue (\<lambda>a angle c. (0, 0, 0)) [] 5
     ((at_rest 0 \<lparr>logicalCube = [], cubies = initial_cubies\<rparr>)
        \<lparr>animationQueue := [\<lparr>t_from = 0, t_to = 4, t_moves = Some [''R2'', ''U'']\<rparr>]\<rparr>)))) = None \<and>
   logicalCube (cubeState ((resume (\<lambda>a angle c. (0, 0, 0)) [] 5 ^^ 2) (cancel (processQueue (\<lambda>a angle c. (0, 0, 0)) [] 5
     ((at_rest 0 \<lparr>logicalCube = [], cubies = initial_cubies\<rparr>)
        \<lparr>animationQueue := [\<lparr>t_from = 0, t_to = 4, t_moves = Some [''R2'', ''U'']\<rparr>]\<rparr>))))) = [''R2'']"
proof -
  let ?e = "\<lambda>(a::axis) (angle::real) (c::cubie). (0::real, 0::real, 0::real)"
  let ?p = "\<lparr>in_flight = RotateSlice X 1 (- 1) (25 / 100),
        pending = [RotateSlice X 1 (- 1) (25 / 100)], later_moves = [''U''],
        pass_duration = 25 / 100, pass_to = 4\<rparr>"
  let ?s = "(at_rest 0 \<lparr>logicalCube = [''R2''], cubies = initial_cubies\<rparr>)
     \<lparr>isProcessingQueue := True, isSolving := True, running := Some ?p\<rparr>"
  have r: "running ?s = Some ?p" by simp
  have i: "is_rotation (in_flight ?p)" by simp
  have l: "list_all is_rotation (pending ?p)" by simp
  note t = cancel_stops_after_move_in_flight [OF r i l, of ?e "[]" 5]
  have t1: "running ((resume ?e [] 5 ^^ 1) (cancel ?s)) =
      Some (?p\<lparr>in_flight := (in_flight ?p # pending ?p) ! 1, pending := drop 1 (pending ?p)\<rparr>)"
    using t [THEN conjunct1, rule_format, of 1] by simp
  have t2: "(resume ?e [] 5 ^^ 2) (cancel ?s) =
      ?s\<lparr>abortProcessing := True,
        cubeState := foldl (\<lambda>c a. perform ?e a c) (cubeState ?s) (in_flight ?p # pending ?p),
        running := None, currentAnimatedStep := pass_to ?p,
        animationQueue := [], isProcessingQueue := False, isSolving := False\<rparr>"
    using t [THEN conjunct2, THEN conjunct1, rule_format, of 2] by simp
  have t3: "logicalCube (cubeState ((resume ?e [] 5 ^^ 2) (cancel ?s))) = logicalCube (cubeState ?s)"
    using t [THEN conjunct2, THEN conjunct2, THEN conjunct1, rule_format, of 2] .
  show ?thesis
    unfolding double_turn_pass
    apply (intro conjI)
    subgoal using t1 by simp
    subgoal unfolding t2 by simp
    subgoal unfolding t2 by simp
    subgoal unfolding t3 by (simp add: at_rest_def)
    done
qed

text \<open>
  Every pass that the loops create holds rotations only, so the hypotheses of the theorem
  hold whenever a rotation of the queue is in flight.
\<close>

lemma start_actions_applyMove:
  "\<exists>r rest. start_actions euler (applyMove m d) c = (perform euler (LogicalMove m) c, Some (r, rest)) \<and>
     is_rotation r \<and> list_all is_rotation rest"
  by (cases "move_slice m") (simp add: applyMove_def Let_def)

lemma for_moves_pass:
  assumes "running (for_moves euler d to moves s) = Some p"
  shows "is_rotation (in_flight p) \<and> list_all is_rotation (pending p)"
  using assms
proof (induction moves arbitrary: s)
  case Nil
  then show ?case by simp
next
  case (Cons m moves)
  obtain r rest where st:
    "start_actions euler (applyMove m d) (cubeState s) =
       (perform euler (LogicalMove m) (cubeState s), Some (r, rest))"
    "is_rotation r" "list_all is_rotation rest"
    using start_actions_applyMove [of euler m d "cubeState s"] by blast
  show ?case
  proof (cases "abortProcessing s")
    case True
    with Cons.prems show ?thesis by simp
  next
    case False
    with Cons.prems st show ?thesis by auto
  qed
qed

lemma while_queue_pass:
  assumes "running (while_queue euler sol n queue s) = Some p" "running s = None"
  shows "is_rotation (in_flight p) \<and> list_all is_rotation (pending p)"
  using assms
proof (induction queue arbitrary: s)
  case Nil
  then show ?case by simp
next
  case (Cons t queue)
  show ?case
  proof (cases "abortProcessing s")
    case True
    with Cons.prems show ?thesis by simp
  next
    case False
    obtain moves d where md:
      "(case t_moves t of Some ms \<Rightarrow> (ms, 25 / 100)
        | None \<Rightarrow> getMovesForTransition sol n (t_from t) (t_to t)) = (moves, d)"
      by (cases "case t_moves t of Some ms \<Rightarrow> (ms, 25 / 100)
        | None \<Rightarrow> getMovesForTransition sol n (t_from t) (t_to t)") auto
    let ?s1 = "for_moves euler d (t_to t) moves (s\<lparr>animationQueue := queue\<rparr>)"
    show ?thesis
    proof (cases "running ?s1")
      case None
      then have "while_queue euler sol n (t # queue) s =
          while_queue euler sol n queue (?s1\<lparr>currentAnimatedStep := t_to t\<rparr>)"
        using False md by simp
      with Cons.prems(1) None show ?thesis
        by (intro Cons.IH [of "?s1\<lparr>currentAnimatedStep := t_to t\<rparr>"]) simp_all
    next
      case (Some q)
      then have "while_queue euler sol n (t # queue) s = ?s1"
        using False md by simp
      with Cons.prems(1) show ?thesis
        by (simp add: for_moves_pass)
    qed
  qed
qed

lemma processQueue_pass:
  assumes "running (processQueue euler sol n s) = Some p" "running s = None"
  shows "is_rotation (in_flight p) \<and> list_all is_rotation (pending p)"
proof (cases "isProcessingQueue s \<or> length (animationQueue s) = 0")
  case True
  with assms show ?thesis by (simp add: processQueue_def)
next
  case False
  then have "processQueue euler sol n s = while_queue euler sol n (animationQueue s)
      (s\<lparr>isProcessingQueue := True, isSolving := True, abortProcessing := False\<rparr>)"
    by (simp add: processQueue_def)
  with assms show ?thesis
    by (intro while_queue_pass [of euler sol n "animationQueue s"
          "s\<lparr>isProcessingQueue := True, isSolving := True, abortProcessing := False\<rparr>"]) simp_all
qed

lemma resume_pass:
  assumes "running s = Some p0" "list_all is_rotation (pending p0)"
    "running (resume euler sol n s) = Some p"
  shows "is_rotation (in_flight p) \<and> list_all is_rotation (pending p)"
proof (cases "pending p0")
  case (Cons r rest)
  with assms(2) have rot: "is_rotation r" "list_all is_rotation rest" by simp_all
  have "resume euler sol n s =
      s\<lparr>cubeState := perform euler (in_flight p0) (cubeState s),
        running := Some (p0\<lparr>in_flight := r, pending := rest\<rparr>)\<rparr>"
    using assms(1) Cons rot(1) by (rule resume_next_rotation)
  with assms(3) rot show ?thesis by auto
next
  case Nil
  let ?c = "perform euler (in_flight p0) (cubeState s)"
  let ?s1 = "for_moves euler (pass_duration p0) (pass_to p0) (later_moves p0)
      (s\<lparr>cubeState := ?c, running := None\<rparr>)"
  show ?thesis
  proof (cases "running ?s1")
    case (Some q)
    then have "resume euler sol n s = ?s1"
      using assms(1) Nil by (simp add: resume_def)
    with assms(3) show ?thesis
      by (simp add: for_moves_pass)
  next
    case None
    then have "resume euler sol n s = while_queue euler sol n (animationQueue ?s1)
        (?s1\<lparr>currentAnimatedStep := pass_to p0\<rparr>)"
      using assms(1) Nil by (simp add: resume_def Let_def)
    with assms(3) None show ?thesis
      by (intro while_queue_pass [of euler sol n "animationQueue ?s1"
            "?s1\<lparr>currentAnimatedStep := pass_to p0\<rparr>"]) simp_all
  qed
qed

end
